theory Spec2Isabelle
  imports Main "HOL-Library.Word" "HOL-Library.Multiset"
begin

section \<open>Go integers\<close>

text \<open>
  The engine works on Go \<^verbatim>\<open>int\<close>: scores, depths and the two sentinels
  \<^verbatim>\<open>math.MinInt\<close> and \<^verbatim>\<open>math.MaxInt\<close>. On the 64-bit targets this is a 64-bit
  two's complement integer, so it is modelled as a 64-bit word read through \<open>sint\<close>:
  \<open><s\<close> and \<open>\<le>s\<close> are Go's \<^verbatim>\<open><\<close> and \<^verbatim>\<open><=\<close>, and \<open>depth - 1\<close> wraps as Go's does.
\<close>

type_synonym go_int = "64 word"

definition MinInt :: go_int where
  "MinInt = - (2 ^ 63)"

definition MaxInt :: go_int where
  "MaxInt = 2 ^ 63 - 1"

section \<open>The SearchNode interface\<close>

text \<open>
  \<^verbatim>\<open>type SearchNodeGenerator func(maximizing bool) SearchNode\<close> is a closure over a
  private cursor. The cursor is the type \<open>'g\<close>; \<open>SearchNodeGenerator\<close> builds the
  fresh cursor of a node and \<open>generator\<close> is one invocation of the closure: \<open>None\<close>
  is the \<^verbatim>\<open>nil\<close> that ends the enumeration, \<open>Some (child, cursor')\<close> a child
  together with the advanced cursor. Nothing forces an implementation to ever
  return \<^verbatim>\<open>nil\<close>.
\<close>

record ('s, 'g) SearchNode =
  Score :: "'s \<Rightarrow> go_int"
  IsTerminal :: "'s \<Rightarrow> bool"
  SearchNodeGenerator :: "'s \<Rightarrow> 'g"
  generator :: "'g \<Rightarrow> bool \<Rightarrow> ('s \<times> 'g) option"

definition MinimaxInitScore :: "bool \<Rightarrow> go_int" where
  "MinimaxInitScore maximizing = (if maximizing then MinInt else MaxInt)"

section \<open>Minimax\<close>

text \<open>
  \<^verbatim>\<open>Minimax\<close> recurses into every child from inside its \<^verbatim>\<open>for\<close> loop. Both the
  recursion (the base case tests \<^verbatim>\<open>depth == 0\<close> only) and the loop (the generator
  decides when it ends) may run forever, so the function is a partial function
  into \<open>option\<close>, where \<open>None\<close> is "does not return". A frame is either the entry
  of a call or the head of the loop with the loop's variables. The returned pair
  is \<^verbatim>\<open>(bestNode, bestScore)\<close>, a \<^verbatim>\<open>nil\<close> node being \<open>None\<close>.
\<close>

datatype ('s, 'g) minimax_frame =
    Call 's go_int bool
  | Loop 'g go_int bool "'s option" go_int

partial_function (option) Minimax_run ::
  "('s, 'g) SearchNode \<Rightarrow> ('s, 'g) minimax_frame \<Rightarrow> ('s option \<times> go_int) option" where
  "Minimax_run G f =
     (case f of
        Call node depth maximizing \<Rightarrow>
          if depth = 0 \<or> IsTerminal G node then Some (Some node, Score G node)
          else Minimax_run G (Loop (SearchNodeGenerator G node) depth maximizing None
                 (MinimaxInitScore maximizing))
      | Loop gen depth maximizing bestNode bestScore \<Rightarrow>
          (case generator G gen maximizing of
             None \<Rightarrow> Some (bestNode, bestScore)
           | Some (childNode, gen') \<Rightarrow>
               Option.bind (Minimax_run G (Call childNode (depth - 1) (\<not> maximizing)))
                 (\<lambda>(_, newScore).
                    if (maximizing \<and> bestScore \<le>s newScore) \<or>
                       (\<not> maximizing \<and> newScore \<le>s bestScore)
                    then Minimax_run G (Loop gen' depth maximizing (Some childNode) newScore)
                    else Minimax_run G (Loop gen' depth maximizing bestNode bestScore))))"

declare Minimax_run.simps [code]

definition Minimax ::
  "('s, 'g) SearchNode \<Rightarrow> 's \<Rightarrow> go_int \<Rightarrow> bool \<Rightarrow> ('s option \<times> go_int) option" where
  "Minimax G node depth maximizing = Minimax_run G (Call node depth maximizing)"

section \<open>Minimax with alpha-beta pruning\<close>

datatype ('s, 'g) alphabeta_frame =
    ABCall 's go_int go_int go_int bool
  | ABLoop 'g go_int go_int go_int bool "'s option" go_int

partial_function (option) minimaxAlphaBetaPrunningImpl_run ::
  "('s, 'g) SearchNode \<Rightarrow> ('s, 'g) alphabeta_frame \<Rightarrow> ('s option \<times> go_int) option" where
  "minimaxAlphaBetaPrunningImpl_run G f =
     (case f of
        ABCall node depth alpha beta maximizing \<Rightarrow>
          if depth \<le>s 0 \<or> IsTerminal G node then Some (Some node, Score G node)
          else minimaxAlphaBetaPrunningImpl_run G
                 (ABLoop (SearchNodeGenerator G node) depth alpha beta maximizing None
                    (MinimaxInitScore maximizing))
      | ABLoop gen depth alpha beta maximizing bestNode bestScore \<Rightarrow>
          (case generator G gen maximizing of
             None \<Rightarrow> Some (bestNode, bestScore)
           | Some (childNode, gen') \<Rightarrow>
               Option.bind
                 (minimaxAlphaBetaPrunningImpl_run G
                    (ABCall childNode (depth - 1) alpha beta (\<not> maximizing)))
                 (\<lambda>(_, newScore).
                    let (alpha', beta', bestNode', bestScore') =
                          (if maximizing
                           then (if alpha <s newScore
                                 then (newScore, beta, Some childNode, newScore)
                                 else (alpha, beta, bestNode, bestScore))
                           else (if newScore <s beta
                                 then (alpha, newScore, Some childNode, newScore)
                                 else (alpha, beta, bestNode, bestScore)))
                    in if beta' \<le>s alpha' then Some (bestNode', bestScore')
                       else minimaxAlphaBetaPrunningImpl_run G
                              (ABLoop gen' depth alpha' beta' maximizing bestNode' bestScore'))))"

declare minimaxAlphaBetaPrunningImpl_run.simps [code]

definition minimaxAlphaBetaPrunningImpl ::
  "('s, 'g) SearchNode \<Rightarrow> 's \<Rightarrow> go_int \<Rightarrow> go_int \<Rightarrow> go_int \<Rightarrow> bool \<Rightarrow>
     ('s option \<times> go_int) option" where
  "minimaxAlphaBetaPrunningImpl G node depth alpha beta maximizing =
     minimaxAlphaBetaPrunningImpl_run G (ABCall node depth alpha beta maximizing)"

definition MinimaxAlphaBetaPrunning ::
  "('s, 'g) SearchNode \<Rightarrow> 's \<Rightarrow> go_int \<Rightarrow> bool \<Rightarrow> ('s option \<times> go_int) option" where
  "MinimaxAlphaBetaPrunning G node depth maximizing =
     minimaxAlphaBetaPrunningImpl G node depth MinInt MaxInt maximizing"

section \<open>Concurrent minimax\<close>

text \<open>
  Job ids count the children of one node from 0, with -1 for the consumer's
  initial \<^verbatim>\<open>best\<close>; they are far from the range where a Go \<^verbatim>\<open>int\<close> wraps and
  are modelled as \<open>int\<close>. The node of a result is an interface value and may be
  \<^verbatim>\<open>nil\<close>.
\<close>

datatype 's workerJob =
  WorkerJob (job_id: int) (job_node: 's) (job_depth: go_int) (job_maximizing: bool)

datatype 's workerResult =
  WorkerResult (res_jobId: int) (res_node: "'s option") (res_score: go_int)

text \<open>
  The feeder sends one job per child, in generation order, and then the number
  of jobs. Its value here is the list of the jobs sent; it does not return when
  the generator never returns \<^verbatim>\<open>nil\<close>.
\<close>

partial_function (option) minimaxConcurrentFeeder_loop ::
  "('s, 'g) SearchNode \<Rightarrow> 'g \<Rightarrow> go_int \<Rightarrow> bool \<Rightarrow> int \<Rightarrow> 's workerJob list option" where
  "minimaxConcurrentFeeder_loop G gen depth maximizing counter =
     (case generator G gen maximizing of
        None \<Rightarrow> Some []
      | Some (childNode, gen') \<Rightarrow>
          Option.bind (minimaxConcurrentFeeder_loop G gen' depth maximizing (counter + 1))
            (\<lambda>jobs. Some (WorkerJob counter childNode (depth - 1) (\<not> maximizing) # jobs)))"

declare minimaxConcurrentFeeder_loop.simps [code]

definition minimaxConcurrentFeeder ::
  "('s, 'g) SearchNode \<Rightarrow> 's \<Rightarrow> go_int \<Rightarrow> bool \<Rightarrow> 's workerJob list option" where
  "minimaxConcurrentFeeder G node depth maximizing =
     minimaxConcurrentFeeder_loop G (SearchNodeGenerator G node) depth maximizing 0"

text \<open>What a worker sends back for one job.\<close>

definition minimaxConcurrentWorker ::
  "('s, 'g) SearchNode \<Rightarrow> 's workerJob \<Rightarrow> 's workerResult option" where
  "minimaxConcurrentWorker G job =
     Option.bind (MinimaxAlphaBetaPrunning G (job_node job) (job_depth job) (job_maximizing job))
       (\<lambda>(_, score). Some (WorkerResult (job_id job) (Some (job_node job)) score))"

text \<open>The body of the consumer's \<^verbatim>\<open>case result := <-results\<close>: two \<^verbatim>\<open>if\<close>s in a row.\<close>

definition consume :: "bool \<Rightarrow> 's workerResult \<Rightarrow> 's workerResult \<Rightarrow> 's workerResult" where
  "consume maximizing best result =
     (let best1 = (if (maximizing \<and> res_score best <s res_score result) \<or>
                      (\<not> maximizing \<and> res_score result <s res_score best)
                   then result else best)
      in if res_score result = res_score best1 \<and> res_jobId result < res_jobId best1
         then result else best1)"

definition consumer_best :: "bool \<Rightarrow> 's workerResult list \<Rightarrow> 's workerResult" where
  "consumer_best maximizing arrived =
     foldl (consume maximizing) (WorkerResult (- 1) None (MinimaxInitScore maximizing)) arrived"

text \<open>
  The consumer returns once it has seen the job count and that many results;
  \<open>arrived\<close> is the sequence of results in the order the channel delivered them.
\<close>

definition minimaxConcurrentConsumer :: "bool \<Rightarrow> 's workerResult list \<Rightarrow> 's option \<times> go_int" where
  "minimaxConcurrentConsumer maximizing arrived =
     (let best = consumer_best maximizing arrived in (res_node best, res_score best))"

text \<open>
  The order in which the workers' results reach the consumer is the scheduler's
  choice. A schedule is a list of numbers: at each receive, the next number
  (modulo the number of results still outstanding) picks the result that
  arrives; when the schedule is used up the rest arrives in job order. Every
  schedule gives a permutation of the results and every permutation comes from
  a schedule.
\<close>

fun arrival :: "nat list \<Rightarrow> 'a list \<Rightarrow> 'a list" where
  "arrival sched [] = []"
| "arrival [] xs = xs"
| "arrival (k # sched) xs =
     (let i = k mod length xs in xs ! i # arrival sched (take i xs @ drop (Suc i) xs))"

text \<open>
  \<^verbatim>\<open>make(chan T, sz)\<close> panics when \<open>sz\<close> is negative or larger than the
  runtime allows for a channel of that element type. That bound is the
  runtime's, not this package's, and depends on the platform and on the size
  of an element, so the bounds for the two channels are parameters. A channel
  that has been made is stood for by its capacity.
\<close>

record chanLimits =
  jobsLimit :: int
  resultsLimit :: int

definition makeChan :: "int \<Rightarrow> go_int \<Rightarrow> go_int option" where
  "makeChan limit sz = (if sz <s 0 \<or> limit < sint sz then None else Some sz)"

text \<open>
  \<^verbatim>\<open>MinimaxConcurrent\<close>: \<open>None\<close> stands for a call that returns nothing. The
  capacity \<^verbatim>\<open>workers*5\<close> is computed in Go's \<^verbatim>\<open>int\<close> and wraps around; either
  \<^verbatim>\<open>make\<close> may panic. The loop \<^verbatim>\<open>for i := 0; i < workers; i++\<close> starts no worker
  unless \<^verbatim>\<open>0 < workers\<close>; with no worker and at least one job no result ever
  arrives and the consumer waits for ever. The feeder or a worker may itself
  not return.
\<close>

definition MinimaxConcurrent ::
  "chanLimits \<Rightarrow> ('s, 'g) SearchNode \<Rightarrow> 's \<Rightarrow> go_int \<Rightarrow> bool \<Rightarrow> go_int \<Rightarrow> nat list \<Rightarrow>
     ('s option \<times> go_int) option" where
  "MinimaxConcurrent L G node depth maximizing workers sched =
     (if depth = 0 \<or> IsTerminal G node then Some (Some node, Score G node)
      else (case makeChan (jobsLimit L) (workers * 5) of
              None \<Rightarrow> None
            | Some jobsCap \<Rightarrow>
      (case makeChan (resultsLimit L) (workers * 5) of
              None \<Rightarrow> None
            | Some resultsCap \<Rightarrow>
      (case minimaxConcurrentFeeder G node depth maximizing of
              None \<Rightarrow> None
            | Some jobs \<Rightarrow>
                if \<not> 0 <s workers \<and> jobs \<noteq> [] then None
                else (case those (map (minimaxConcurrentWorker G) jobs) of
                        None \<Rightarrow> None
                      | Some results \<Rightarrow>
                          Some (minimaxConcurrentConsumer maximizing (arrival sched results)))))))"

text \<open>
  Bounds for the concrete evaluations below, for instance those of a 64-bit
  runtime that gives a buffer at most \<open>2 ^ 48 - 96\<close> bytes, a \<^verbatim>\<open>workerJob\<close> taking
  40 bytes and a \<^verbatim>\<open>workerResult\<close> 32. Every general statement below holds for
  all bounds.
\<close>

definition limits64 :: chanLimits where
  "limits64 = \<lparr>jobsLimit = (2 ^ 48 - 96) div 40, resultsLimit = (2 ^ 48 - 96) div 32\<rparr>"

section \<open>Tic-tac-toe\<close>

text \<open>
  The example game of the tests. A square holds \<^verbatim>\<open>cross\<close>, \<^verbatim>\<open>empty\<close> or
  \<^verbatim>\<open>circle\<close> (-1, 0, 1); \<^verbatim>\<open>board[y][x]\<close> is \<open>board node ! y ! x\<close>, the board
  being the list of its three rows.
\<close>

definition cross :: go_int where "cross = - 1"

definition empty_sq :: go_int where "empty_sq = 0"

definition circle :: go_int where "circle = 1"

record tttNode =
  board :: "go_int list list"

definition isInRow :: "go_int \<Rightarrow> go_int \<Rightarrow> go_int \<Rightarrow> bool" where
  "isInRow a b c \<longleftrightarrow> a \<noteq> empty_sq \<and> a = b \<and> b = c"

definition numberEmptySquares :: "tttNode \<Rightarrow> go_int" where
  "numberEmptySquares node =
     foldl (\<lambda>num y. foldl (\<lambda>num x. if board node ! y ! x = empty_sq then num + 1 else num)
                        num [0 ..< 3])
           0 [0 ..< 3]"

text \<open>
  \<^verbatim>\<open>anyFullRow\<close>: for \<open>i\<close> from 0 to 2, row \<open>i\<close> and then column \<open>i\<close>; after the
  loop the two diagonals. The second argument of the loop function counts the
  iterations that remain.
\<close>

fun anyFullRow_from :: "go_int list list \<Rightarrow> nat \<Rightarrow> nat \<Rightarrow> bool \<times> go_int" where
  "anyFullRow_from b i 0 =
     (if isInRow (b ! 0 ! 0) (b ! 1 ! 1) (b ! 2 ! 2) \<or> isInRow (b ! 2 ! 0) (b ! 1 ! 1) (b ! 0 ! 2)
      then (True, b ! 1 ! 1) else (False, empty_sq))"
| "anyFullRow_from b i (Suc n) =
     (if isInRow (b ! i ! 0) (b ! i ! 1) (b ! i ! 2) then (True, b ! i ! 0)
      else if isInRow (b ! 0 ! i) (b ! 1 ! i) (b ! 2 ! i) then (True, b ! 0 ! i)
      else anyFullRow_from b (i + 1) n)"

definition anyFullRow :: "tttNode \<Rightarrow> bool \<times> go_int" where
  "anyFullRow node = anyFullRow_from (board node) 0 3"

definition tttScore :: "tttNode \<Rightarrow> go_int" where
  "tttScore node = (let (_, symbol) = anyFullRow node in symbol * (numberEmptySquares node + 1))"

definition tttIsTerminal :: "tttNode \<Rightarrow> bool" where
  "tttIsTerminal node = (let (row, _) = anyFullRow node in row \<or> numberEmptySquares node = 0)"

text \<open>
  The closure returned by \<^verbatim>\<open>SearchNodeGenerator\<close> captures the node and the
  two counters \<^verbatim>\<open>x\<close> and \<^verbatim>\<open>y\<close>; one invocation scans on from \<^verbatim>\<open>(x, y)\<close> to the
  next empty square, returns a copy of the node with \<^verbatim>\<open>symbol[maximizing]\<close> on
  it and leaves \<^verbatim>\<open>x\<close> just behind that square.
\<close>

record tttCursor =
  cur_node :: tttNode
  cur_x :: nat
  cur_y :: nat

definition symbol :: "bool \<Rightarrow> go_int" where
  "symbol maximizing = (if maximizing then circle else cross)"

definition place :: "tttNode \<Rightarrow> nat \<Rightarrow> nat \<Rightarrow> go_int \<Rightarrow> tttNode" where
  "place node y x s = node \<lparr> board := (board node) [y := (board node ! y) [x := s]] \<rparr>"

function tttGenerator :: "tttCursor \<Rightarrow> bool \<Rightarrow> (tttNode \<times> tttCursor) option" where
  "tttGenerator g maximizing =
     (if cur_y g < 3 then
        (if cur_x g < 3 then
           (if board (cur_node g) ! cur_y g ! cur_x g = empty_sq
            then Some (place (cur_node g) (cur_y g) (cur_x g) (symbol maximizing),
                       g \<lparr> cur_x := cur_x g + 1 \<rparr>)
            else tttGenerator (g \<lparr> cur_x := cur_x g + 1 \<rparr>) maximizing)
         else tttGenerator (g \<lparr> cur_x := 0, cur_y := cur_y g + 1 \<rparr>) maximizing)
      else None)"
  by pat_completeness auto
termination
  by (relation "measure (\<lambda>(g, m). (3 - cur_y g) * 4 + (3 - cur_x g))") auto

declare tttGenerator.simps [simp del]

definition ttt :: "(tttNode, tttCursor) SearchNode" where
  "ttt = \<lparr> Score = tttScore, IsTerminal = tttIsTerminal,
           SearchNodeGenerator = (\<lambda>node. \<lparr> cur_node = node, cur_x = 0, cur_y = 0 \<rparr>),
           generator = tttGenerator \<rparr>"

text \<open>
  The loops of \<^verbatim>\<open>TestTTTSingleMinimax\<close> (\<^verbatim>\<open>maximizing\<close> stays \<^verbatim>\<open>false\<close>) and of
  \<^verbatim>\<open>TestTTTBestMinimaxVsBestMinimax\<close> (\<^verbatim>\<open>maximizing\<close> flips after every move):
  \<open>i\<close> times, \<^verbatim>\<open>sn\<close> is replaced by the node \<^verbatim>\<open>Minimax(sn, 9, maximizing)\<close>
  returns. A \<^verbatim>\<open>nil\<close> node would make the next call panic.
\<close>

definition tttEmpty :: tttNode where
  "tttEmpty = \<lparr> board = [[0, 0, 0], [0, 0, 0], [0, 0, 0]] \<rparr>"

fun play :: "bool \<Rightarrow> nat \<Rightarrow> tttNode \<Rightarrow> bool \<Rightarrow> tttNode option" where
  "play alternate 0 sn maximizing = Some sn"
| "play alternate (Suc i) sn maximizing =
     (case Minimax ttt sn 9 maximizing of
        Some (Some newNode, _) \<Rightarrow>
          play alternate i newNode (if alternate then \<not> maximizing else maximizing)
      | _ \<Rightarrow> None)"

section \<open>Generators that end\<close>

text \<open>
  \<open>yields G m gen cs\<close>: invoked again and again with argument \<open>m\<close>, the generator
  at cursor \<open>gen\<close> returns the children \<open>cs\<close>, in this order, and then \<^verbatim>\<open>nil\<close>.
\<close>

inductive yields :: "('s, 'g) SearchNode \<Rightarrow> bool \<Rightarrow> 'g \<Rightarrow> 's list \<Rightarrow> bool" where
  yields_Nil: "generator G gen m = None \<Longrightarrow> yields G m gen []"
| yields_Cons: "generator G gen m = Some (c, gen') \<Longrightarrow> yields G m gen' cs \<Longrightarrow>
     yields G m gen (c # cs)"

text \<open>\<open>produced G m gen c\<close>: some invocation returns the child \<open>c\<close>.\<close>

inductive produced :: "('s, 'g) SearchNode \<Rightarrow> bool \<Rightarrow> 'g \<Rightarrow> 's \<Rightarrow> bool" where
  produced_here: "generator G gen m = Some (c, gen') \<Longrightarrow> produced G m gen c"
| produced_later: "generator G gen m = Some (c', gen') \<Longrightarrow> produced G m gen' c \<Longrightarrow>
     produced G m gen c"

text \<open>
  The positions a search from \<open>node\<close> with side \<open>m\<close> can come to: the children of
  a non-terminal position, generated for the side to move there, are searched
  with the other side to move.
\<close>

inductive reaches :: "('s, 'g) SearchNode \<Rightarrow> 's \<Rightarrow> bool \<Rightarrow> 's \<Rightarrow> bool \<Rightarrow> bool" where
  reaches_here: "reaches G node m node m"
| reaches_child: "reaches G node m t m' \<Longrightarrow> \<not> IsTerminal G t \<Longrightarrow>
     produced G m' (SearchNodeGenerator G t) c \<Longrightarrow> reaches G node m c (\<not> m')"

definition generators_end :: "('s, 'g) SearchNode \<Rightarrow> 's \<Rightarrow> bool \<Rightarrow> bool" where
  "generators_end G node m \<longleftrightarrow>
     (\<forall>t m'. reaches G node m t m' \<longrightarrow> \<not> IsTerminal G t \<longrightarrow>
        (\<exists>cs. yields G m' (SearchNodeGenerator G t) cs))"

text \<open>
  A game given by the list of children of every position: the cursor is the
  list of the children still to come.
\<close>

definition listGame ::
  "('s \<Rightarrow> go_int) \<Rightarrow> ('s \<Rightarrow> bool) \<Rightarrow> ('s \<Rightarrow> 's list) \<Rightarrow> ('s, 's list) SearchNode" where
  "listGame sc tm ch =
     \<lparr> Score = sc, IsTerminal = tm, SearchNodeGenerator = ch,
       generator = (\<lambda>gen maximizing. case gen of [] \<Rightarrow> None | c # cs \<Rightarrow> Some (c, cs)) \<rparr>"

text \<open>
  A small game for concrete runs. Positions 0, 3 and 5 have the children [1],
  [4] and [1, 6, 7]; position 2 is not terminal and has no child; positions 1,
  4, 6 and 7 are terminal, with scores 5, \<^verbatim>\<open>math.MinInt\<close>, 5 and 3; every other
  score is 0.
\<close>

definition toy :: "(nat, nat list) SearchNode" where
  "toy = listGame
     (\<lambda>s. if s = 1 \<or> s = 6 then 5 else if s = 7 then 3 else if s = 4 then MinInt else 0)
     (\<lambda>s. s = 1 \<or> s = 4 \<or> s = 6 \<or> s = 7)
     (\<lambda>s. if s = 0 then [1] else if s = 3 then [4] else if s = 5 then [1, 6, 7] else [])"

section \<open>Notions for the proofs\<close>

text \<open>
  \<open>searchable G n node m\<close>: down to depth \<open>n\<close> below \<open>node\<close>, the generator of
  every position that is not terminal ends.
\<close>

fun searchable :: "('s, 'g) SearchNode \<Rightarrow> nat \<Rightarrow> 's \<Rightarrow> bool \<Rightarrow> bool" where
  "searchable G 0 s m = True"
| "searchable G (Suc n) s m =
     (IsTerminal G s \<or>
      (\<exists>cs. yields G m (SearchNodeGenerator G s) cs \<and> (\<forall>c\<in>set cs. searchable G n c (\<not> m))))"

text \<open>
  What a returned loop of \<^verbatim>\<open>Minimax\<close> tells: its generator has ended and the
  search of every child has returned.
\<close>

definition loop_ok :: "('s, 'g) SearchNode \<Rightarrow> ('s, 'g) minimax_frame \<Rightarrow> bool" where
  "loop_ok G f \<longleftrightarrow>
     (case f of
        Call node depth maximizing \<Rightarrow> True
      | Loop gen depth maximizing bestNode bestScore \<Rightarrow>
          (\<exists>cs. yields G maximizing gen cs \<and>
             (\<forall>c\<in>set cs. \<exists>r. Minimax G c (depth - 1) (\<not> maximizing) = Some r)))"

text \<open>
  The \<^verbatim>\<open>if\<close> in the loop of \<^verbatim>\<open>Minimax\<close>, as a function of the current
  \<^verbatim>\<open>(bestNode, bestScore)\<close> and of a child with its score.
\<close>

definition accept :: "bool \<Rightarrow> 's option \<times> go_int \<Rightarrow> 's \<times> go_int \<Rightarrow> 's option \<times> go_int" where
  "accept maximizing best child =
     (if (maximizing \<and> snd best \<le>s snd child) \<or> (\<not> maximizing \<and> snd child \<le>s snd best)
      then (Some (fst child), snd child) else best)"

text \<open>
  What the pruned search with window \<open>(alpha, beta)\<close> says about the full
  minimax value \<open>v\<close> of a position through its result \<open>r\<close>: it is exact inside
  the window and on the same side of the window outside.
\<close>

definition within :: "go_int \<Rightarrow> go_int \<Rightarrow> go_int \<Rightarrow> go_int \<Rightarrow> bool" where
  "within alpha beta v r \<longleftrightarrow>
     (v \<le>s alpha \<longrightarrow> r \<le>s alpha) \<and> (alpha <s v \<and> v <s beta \<longrightarrow> r = v) \<and> (beta \<le>s v \<longrightarrow> beta \<le>s r)"

text \<open>
  The result \<open>r\<close> of the pruned loop of a maximizing (minimizing) position,
  entered with window \<open>(alpha, beta)\<close> and best score \<open>bs\<close>, over children
  whose minimax values are \<open>vs\<close>.
\<close>

definition loop_post_max :: "go_int \<Rightarrow> go_int \<Rightarrow> go_int \<Rightarrow> go_int list \<Rightarrow> go_int \<Rightarrow> bool" where
  "loop_post_max alpha beta bs vs r \<longleftrightarrow>
     (let M = foldl max (sint alpha) (map sint vs) in
        (sint beta \<le> M \<longrightarrow> sint beta \<le> sint r) \<and>
        (sint alpha < M \<and> M < sint beta \<longrightarrow> sint r = M) \<and>
        (M = sint alpha \<longrightarrow> r = bs))"

definition loop_post_min :: "go_int \<Rightarrow> go_int \<Rightarrow> go_int \<Rightarrow> go_int list \<Rightarrow> go_int \<Rightarrow> bool" where
  "loop_post_min alpha beta bs vs r \<longleftrightarrow>
     (let M = foldl min (sint beta) (map sint vs) in
        (M \<le> sint alpha \<longrightarrow> sint r \<le> sint alpha) \<and>
        (sint alpha < M \<and> M < sint beta \<longrightarrow> sint r = M) \<and>
        (M = sint beta \<longrightarrow> r = bs))"

text \<open>
  \<open>better m x y\<close>: for the side \<open>m\<close> the score \<open>x\<close> is strictly better than \<open>y\<close>;
  \<open>no_worse m x y\<close>: it is at least as good.
\<close>

definition better :: "bool \<Rightarrow> go_int \<Rightarrow> go_int \<Rightarrow> bool" where
  "better maximizing x y \<longleftrightarrow> (if maximizing then y <s x else x <s y)"

definition no_worse :: "bool \<Rightarrow> go_int \<Rightarrow> go_int \<Rightarrow> bool" where
  "no_worse maximizing x y \<longleftrightarrow> (if maximizing then y \<le>s x else x \<le>s y)"

text \<open>
  \<open>beats m r b\<close>: the consumer replaces its current best \<open>b\<close> by the result \<open>r\<close>.
\<close>

definition beats :: "bool \<Rightarrow> 's workerResult \<Rightarrow> 's workerResult \<Rightarrow> bool" where
  "beats maximizing r b \<longleftrightarrow>
     better maximizing (res_score r) (res_score b) \<or>
     (res_score r = res_score b \<and> res_jobId r < res_jobId b)"

text \<open>
  The jobs the feeder sends for the children \<open>cs\<close>, numbered from \<open>k\<close>, and the
  results the workers send back when \<open>val c\<close> is the score found for child \<open>c\<close>.
\<close>

fun jobs_of :: "int \<Rightarrow> 's list \<Rightarrow> go_int \<Rightarrow> bool \<Rightarrow> 's workerJob list" where
  "jobs_of k [] d m = []"
| "jobs_of k (c # cs) d m = WorkerJob k c d m # jobs_of (k + 1) cs d m"

fun results_of :: "int \<Rightarrow> 's list \<Rightarrow> ('s \<Rightarrow> go_int) \<Rightarrow> 's workerResult list" where
  "results_of k [] val = []"
| "results_of k (c # cs) val = WorkerResult k (Some c) (val c) # results_of (k + 1) cs val"

text \<open>
  The pruned search as a total function on the remaining depth, the children
  of a position being given by the list \<open>kids s m\<close>; scores are read as
  integers.
\<close>

function ab_val :: "('s, 'g) SearchNode \<Rightarrow> ('s \<Rightarrow> bool \<Rightarrow> 's list) \<Rightarrow> nat \<Rightarrow> 's \<Rightarrow> int \<Rightarrow> int \<Rightarrow> bool \<Rightarrow> int"
  and ab_loop :: "('s, 'g) SearchNode \<Rightarrow> ('s \<Rightarrow> bool \<Rightarrow> 's list) \<Rightarrow> nat \<Rightarrow> 's list \<Rightarrow> int \<Rightarrow> int \<Rightarrow> bool \<Rightarrow> int \<Rightarrow> int"
  where
  "ab_val G kids 0 s a b m = sint (Score G s)"
| "ab_val G kids (Suc n) s a b m =
     (if IsTerminal G s then sint (Score G s)
      else ab_loop G kids n (kids s m) a b m (sint (MinimaxInitScore m)))"
| "ab_loop G kids n [] a b m bs = bs"
| "ab_loop G kids n (c # cs) a b m bs =
     (let ns = ab_val G kids n c a b (\<not> m) in
      if m then (if a < ns then (if b \<le> ns then ns else ab_loop G kids n cs ns b m ns)
                 else (if b \<le> a then bs else ab_loop G kids n cs a b m bs))
      else (if ns < b then (if ns \<le> a then ns else ab_loop G kids n cs a ns m ns)
            else (if b \<le> a then bs else ab_loop G kids n cs a b m bs)))"
  by pat_completeness auto
termination
  by (relation "measures [\<lambda>x. case x of Inl (G, kids, n, s, a, b, m) \<Rightarrow> 2 * n
                              | Inr (G, kids, n, cs, a, b, m, bs) \<Rightarrow> 2 * n + 1,
                           \<lambda>x. case x of Inl _ \<Rightarrow> 0
                              | Inr (G, kids, n, cs, a, b, m, bs) \<Rightarrow> length cs]") auto

text \<open>
  \<open>minimax_in G s depth m lo hi\<close>: \<^verbatim>\<open>Minimax\<close> returns at \<open>s\<close>, with a score
  between \<open>lo\<close> and \<open>hi\<close>.
\<close>

definition minimax_in ::
  "('s, 'g) SearchNode \<Rightarrow> 's \<Rightarrow> go_int \<Rightarrow> bool \<Rightarrow> int \<Rightarrow> int \<Rightarrow> bool" where
  "minimax_in G s depth m lo hi \<longleftrightarrow>
     (\<exists>x v. Minimax G s depth m = Some (x, v) \<and> lo \<le> sint v \<and> sint v \<le> hi)"

text \<open>
  All the children the tic-tac-toe generator still returns from a cursor, and
  the children of a node.
\<close>

function tttChildren :: "tttCursor \<Rightarrow> bool \<Rightarrow> tttNode list" where
  "tttChildren g maximizing =
     (if cur_y g < 3 then
        (if cur_x g < 3 then
           (if board (cur_node g) ! cur_y g ! cur_x g = empty_sq
            then [place (cur_node g) (cur_y g) (cur_x g) (symbol maximizing)] else [])
           @ tttChildren (g \<lparr> cur_x := cur_x g + 1 \<rparr>) maximizing
         else tttChildren (g \<lparr> cur_x := 0, cur_y := cur_y g + 1 \<rparr>) maximizing)
      else [])"
  by pat_completeness auto
termination
  by (relation "measure (\<lambda>(g, m). (3 - cur_y g) * 4 + (3 - cur_x g))") auto

declare tttChildren.simps [simp del]

definition tttKids :: "tttNode \<Rightarrow> bool \<Rightarrow> tttNode list" where
  "tttKids node maximizing = tttChildren \<lparr> cur_node = node, cur_x = 0, cur_y = 0 \<rparr> maximizing"

text \<open>
  Boards written square by square, and the functions of the game on boards
  written this way.
\<close>

datatype cell = Cross | Blank | Circle

fun cell_val :: "cell \<Rightarrow> go_int" where
  "cell_val Cross = cross"
| "cell_val Blank = empty_sq"
| "cell_val Circle = circle"

fun cell_int :: "cell \<Rightarrow> int" where
  "cell_int Cross = - 1"
| "cell_int Blank = 0"
| "cell_int Circle = 1"

definition mkB :: "cell \<Rightarrow> cell \<Rightarrow> cell \<Rightarrow> cell \<Rightarrow> cell \<Rightarrow> cell \<Rightarrow> cell \<Rightarrow> cell \<Rightarrow> cell \<Rightarrow> tttNode" where
  "mkB a b c d e f g h i =
     \<lparr> board = [[cell_val a, cell_val b, cell_val c],
                 [cell_val d, cell_val e, cell_val f],
                 [cell_val g, cell_val h, cell_val i]] \<rparr>"

definition full :: "cell \<Rightarrow> cell \<Rightarrow> cell \<Rightarrow> bool" where
  "full a b c \<longleftrightarrow> a \<noteq> Blank \<and> a = b \<and> b = c"

definition bl :: "cell \<Rightarrow> nat" where
  "bl x = (if x = Blank then 1 else 0)"

definition blanks9 :: "cell \<Rightarrow> cell \<Rightarrow> cell \<Rightarrow> cell \<Rightarrow> cell \<Rightarrow> cell \<Rightarrow> cell \<Rightarrow> cell \<Rightarrow> cell \<Rightarrow> nat" where
  "blanks9 a b c d e f g h i = bl a + bl b + bl c + bl d + bl e + bl f + bl g + bl h + bl i"

definition term9 :: "cell \<Rightarrow> cell \<Rightarrow> cell \<Rightarrow> cell \<Rightarrow> cell \<Rightarrow> cell \<Rightarrow> cell \<Rightarrow> cell \<Rightarrow> cell \<Rightarrow> bool" where
  "term9 a b c d e f g h i \<longleftrightarrow>
     full a b c \<or> full a d g \<or> full d e f \<or> full b e h \<or> full g h i \<or> full c f i \<or>
     full a e i \<or> full g e c \<or> blanks9 a b c d e f g h i = 0"

definition score9 :: "cell \<Rightarrow> cell \<Rightarrow> cell \<Rightarrow> cell \<Rightarrow> cell \<Rightarrow> cell \<Rightarrow> cell \<Rightarrow> cell \<Rightarrow> cell \<Rightarrow> int" where
  "score9 a b c d e f g h i =
     (if full a b c then cell_int a else if full a d g then cell_int a
      else if full d e f then cell_int d else if full b e h then cell_int b
      else if full g h i then cell_int g else if full c f i then cell_int c
      else if full a e i \<or> full g e c then cell_int e else 0)
     * (int (blanks9 a b c d e f g h i) + 1)"

definition sym :: "bool \<Rightarrow> cell" where
  "sym m = (if m then Circle else Cross)"

definition kids9 :: "cell \<Rightarrow> cell \<Rightarrow> cell \<Rightarrow> cell \<Rightarrow> cell \<Rightarrow> cell \<Rightarrow> cell \<Rightarrow> cell \<Rightarrow> cell \<Rightarrow> bool \<Rightarrow> tttNode list" where
  "kids9 a b c d e f g h i m =
     (if a = Blank then [mkB (sym m) b c d e f g h i] else []) @
     (if b = Blank then [mkB a (sym m) c d e f g h i] else []) @
     (if c = Blank then [mkB a b (sym m) d e f g h i] else []) @
     (if d = Blank then [mkB a b c (sym m) e f g h i] else []) @
     (if e = Blank then [mkB a b c d (sym m) f g h i] else []) @
     (if f = Blank then [mkB a b c d e (sym m) g h i] else []) @
     (if g = Blank then [mkB a b c d e f (sym m) h i] else []) @
     (if h = Blank then [mkB a b c d e f g (sym m) i] else []) @
     (if i = Blank then [mkB a b c d e f g h (sym m)] else [])"

definition tttAB :: "nat \<Rightarrow> tttNode \<Rightarrow> int \<Rightarrow> int \<Rightarrow> bool \<Rightarrow> int" where
  "tttAB n s a b m = ab_val ttt tttKids n s a b m"

definition tttABl :: "nat \<Rightarrow> tttNode list \<Rightarrow> int \<Rightarrow> int \<Rightarrow> bool \<Rightarrow> int \<Rightarrow> int" where
  "tttABl n cs a b m bs = ab_loop ttt tttKids n cs a b m bs"

text \<open>
  The worker counts with which \<^verbatim>\<open>MinimaxConcurrent\<close> gets its two channels and
  starts at least one worker.
\<close>

definition pool :: "chanLimits \<Rightarrow> go_int \<Rightarrow> bool" where
  "pool L workers \<longleftrightarrow>
     0 <s workers \<and> makeChan (jobsLimit L) (workers * 5) \<noteq> None
       \<and> makeChan (resultsLimit L) (workers * 5) \<noteq> None"

section \<open>Unfolding the searches\<close>

lemma Minimax_base:
  "depth = 0 \<or> IsTerminal G node \<Longrightarrow>
     Minimax G node depth maximizing = Some (Some node, Score G node)"
  by (simp add: Minimax_def Minimax_run.simps)

lemma Minimax_expand:
  "depth \<noteq> 0 \<Longrightarrow> \<not> IsTerminal G node \<Longrightarrow>
     Minimax G node depth maximizing =
       Minimax_run G (Loop (SearchNodeGenerator G node) depth maximizing None
         (MinimaxInitScore maximizing))"
  by (simp add: Minimax_def Minimax_run.simps [of G "Call node depth maximizing"])

lemma Minimax_loop_nil:
  "generator G gen maximizing = None \<Longrightarrow>
     Minimax_run G (Loop gen depth maximizing bestNode bestScore) = Some (bestNode, bestScore)"
  by (simp add: Minimax_run.simps [of G "Loop gen depth maximizing bestNode bestScore"])

lemma Minimax_loop_child:
  "generator G gen maximizing = Some (childNode, gen') \<Longrightarrow>
   Minimax G childNode (depth - 1) (\<not> maximizing) = Some (x, newScore) \<Longrightarrow>
     Minimax_run G (Loop gen depth maximizing bestNode bestScore) =
       (if (maximizing \<and> bestScore \<le>s newScore) \<or> (\<not> maximizing \<and> newScore \<le>s bestScore)
        then Minimax_run G (Loop gen' depth maximizing (Some childNode) newScore)
        else Minimax_run G (Loop gen' depth maximizing bestNode bestScore))"
  by (simp add: Minimax_def Minimax_run.simps [of G "Loop gen depth maximizing bestNode bestScore"])

lemma alphabeta_base:
  "depth \<le>s 0 \<or> IsTerminal G node \<Longrightarrow>
     minimaxAlphaBetaPrunningImpl G node depth alpha beta maximizing =
       Some (Some node, Score G node)"
  by (simp add: minimaxAlphaBetaPrunningImpl_def minimaxAlphaBetaPrunningImpl_run.simps)

lemma alphabeta_expand:
  "\<not> depth \<le>s 0 \<Longrightarrow> \<not> IsTerminal G node \<Longrightarrow>
     minimaxAlphaBetaPrunningImpl G node depth alpha beta maximizing =
       minimaxAlphaBetaPrunningImpl_run G
         (ABLoop (SearchNodeGenerator G node) depth alpha beta maximizing None
            (MinimaxInitScore maximizing))"
  by (simp add: minimaxAlphaBetaPrunningImpl_def
        minimaxAlphaBetaPrunningImpl_run.simps [of G "ABCall node depth alpha beta maximizing"])

lemma alphabeta_loop_nil:
  "generator G gen maximizing = None \<Longrightarrow>
     minimaxAlphaBetaPrunningImpl_run G (ABLoop gen depth alpha beta maximizing bestNode bestScore)
       = Some (bestNode, bestScore)"
  by (simp add: minimaxAlphaBetaPrunningImpl_run.simps
        [of G "ABLoop gen depth alpha beta maximizing bestNode bestScore"])

lemma alphabeta_loop_child_max:
  "generator G gen True = Some (childNode, gen') \<Longrightarrow>
   minimaxAlphaBetaPrunningImpl G childNode (depth - 1) alpha beta False = Some (x, newScore) \<Longrightarrow>
     minimaxAlphaBetaPrunningImpl_run G (ABLoop gen depth alpha beta True bestNode bestScore) =
       (if alpha <s newScore
        then (if beta \<le>s newScore then Some (Some childNode, newScore)
              else minimaxAlphaBetaPrunningImpl_run G
                     (ABLoop gen' depth newScore beta True (Some childNode) newScore))
        else (if beta \<le>s alpha then Some (bestNode, bestScore)
              else minimaxAlphaBetaPrunningImpl_run G
                     (ABLoop gen' depth alpha beta True bestNode bestScore)))"
  by (simp add: minimaxAlphaBetaPrunningImpl_def minimaxAlphaBetaPrunningImpl_run.simps
        [of G "ABLoop gen depth alpha beta True bestNode bestScore"])

lemma alphabeta_loop_child_min:
  "generator G gen False = Some (childNode, gen') \<Longrightarrow>
   minimaxAlphaBetaPrunningImpl G childNode (depth - 1) alpha beta True = Some (x, newScore) \<Longrightarrow>
     minimaxAlphaBetaPrunningImpl_run G (ABLoop gen depth alpha beta False bestNode bestScore) =
       (if newScore <s beta
        then (if newScore \<le>s alpha then Some (Some childNode, newScore)
              else minimaxAlphaBetaPrunningImpl_run G
                     (ABLoop gen' depth alpha newScore False (Some childNode) newScore))
        else (if beta \<le>s alpha then Some (bestNode, bestScore)
              else minimaxAlphaBetaPrunningImpl_run G
                     (ABLoop gen' depth alpha beta False bestNode bestScore)))"
  by (simp add: minimaxAlphaBetaPrunningImpl_def minimaxAlphaBetaPrunningImpl_run.simps
        [of G "ABLoop gen depth alpha beta False bestNode bestScore"])


lemma feeder_nil:
  "generator G gen maximizing = None \<Longrightarrow>
     minimaxConcurrentFeeder_loop G gen depth maximizing counter = Some []"
  by (simp add: minimaxConcurrentFeeder_loop.simps)

lemma feeder_child:
  "generator G gen maximizing = Some (childNode, gen') \<Longrightarrow>
     minimaxConcurrentFeeder_loop G gen depth maximizing counter =
       Option.bind (minimaxConcurrentFeeder_loop G gen' depth maximizing (counter + 1))
         (\<lambda>jobs. Some (WorkerJob counter childNode (depth - 1) (\<not> maximizing) # jobs))"
  by (simp add: minimaxConcurrentFeeder_loop.simps [of G gen depth maximizing counter])

section \<open>Signed order on Go integers\<close>

lemma sint_MinInt: "sint MinInt = - (2 ^ 63)"
  by (simp add: MinInt_def)

lemma sint_MaxInt: "sint MaxInt = 2 ^ 63 - 1"
  by (simp add: MaxInt_def)

lemma MinInt_least: "sint MinInt \<le> sint (x :: go_int)"
  using sint_ge [of x] by (simp add: sint_MinInt)

lemma MaxInt_greatest: "sint (x :: go_int) \<le> sint MaxInt"
  using sint_lt [of x] by (simp add: sint_MaxInt)

lemma sint_zero_iff: "sint (d :: go_int) = 0 \<longleftrightarrow> d = 0"
  using signed_word_eqI [of d 0] by auto

lemma depth_pred:
  assumes "0 < sint (d :: go_int)"
  shows "sint (d - 1) = sint d - 1"
proof -
  have "sint d < 2 ^ 63"
    using sint_lt [of d] by simp
  with assms show ?thesis
    by (simp add: sint_word_ariths signed_take_bit_int_eq_self)
qed

lemma depth_pos: "1 \<le>s (depth :: go_int) \<Longrightarrow> depth \<noteq> 0 \<and> \<not> depth \<le>s 0"
  by (auto simp: word_sle_eq)

section \<open>Games given by lists\<close>

lemma listGame_simps [simp]:
  "Score (listGame sc tm ch) = sc"
  "IsTerminal (listGame sc tm ch) = tm"
  "SearchNodeGenerator (listGame sc tm ch) = ch"
  "generator (listGame sc tm ch) [] m = None"
  "generator (listGame sc tm ch) (c # cs) m = Some (c, cs)"
  by (simp_all add: listGame_def)

lemma yields_listGame: "yields (listGame sc tm ch) m cs cs"
  by (induction cs) (auto intro: yields.intros)

lemma generators_end_listGame: "generators_end (listGame sc tm ch) node m"
  unfolding generators_end_def using yields_listGame by fastforce

lemma generators_end_toy: "generators_end toy node m"
  unfolding toy_def by (rule generators_end_listGame)

lemma toy_simps [simp]:
  "Score toy s =
     (if s = 1 \<or> s = 6 then 5 else if s = 7 then 3 else if s = 4 then MinInt else 0)"
  "IsTerminal toy s = (s = 1 \<or> s = 4 \<or> s = 6 \<or> s = 7)"
  "SearchNodeGenerator toy s =
     (if s = 0 then [1] else if s = 3 then [4] else if s = 5 then [1, 6, 7] else [])"
  "generator toy [] m = None"
  "generator toy (c # cs) m = Some (c, cs)"
  by (simp_all add: toy_def listGame_def)

section \<open>Minimax value and pruned search\<close>

lemma Minimax_loop_yields:
  assumes "yields G m gen cs"
    and "\<forall>c\<in>set cs. \<exists>x. Minimax G c (depth - 1) (\<not> m) = Some (x, val c)"
  shows "Minimax_run G (Loop gen depth m bn bs) =
           Some (foldl (accept m) (bn, bs) (map (\<lambda>c. (c, val c)) cs))"
  using assms
proof (induction arbitrary: bn bs rule: yields.induct)
  case (yields_Nil G gen m)
  then show ?case by (simp add: Minimax_loop_nil)
next
  case (yields_Cons G gen m c gen' cs)
  from yields_Cons.prems obtain x where x: "Minimax G c (depth - 1) (\<not> m) = Some (x, val c)"
    by auto
  have rest: "\<forall>c\<in>set cs. \<exists>x. Minimax G c (depth - 1) (\<not> m) = Some (x, val c)"
    using yields_Cons.prems by simp
  show ?case
    using yields_Cons.IH [OF rest]
    by (simp add: Minimax_loop_child [OF yields_Cons.hyps(1) x] accept_def)
qed

lemma accept_score_max:
  "sint (snd (foldl (accept True) b xs)) = foldl max (sint (snd b)) (map (\<lambda>x. sint (snd x)) xs)"
  by (induction xs arbitrary: b) (auto simp: accept_def word_sle_eq max_def)

lemma accept_score_min:
  "sint (snd (foldl (accept False) b xs)) = foldl min (sint (snd b)) (map (\<lambda>x. sint (snd x)) xs)"
  by (induction xs arbitrary: b) (auto simp: accept_def word_sle_eq min_def)

lemma foldl_max_ge: "(a :: int) \<le> foldl max a xs"
  by (induction xs arbitrary: a) (auto intro: order_trans [OF max.cobounded1])

lemma foldl_min_le: "foldl min a xs \<le> (a :: int)"
  by (induction xs arbitrary: a) (auto intro: order_trans [OF _ min.cobounded1])

lemma alphabeta_loop_max:
  assumes "yields G m gen cs" and "m"
    and "\<forall>c\<in>set cs. \<forall>a b. a <s b \<longrightarrow>
           (\<exists>y r. minimaxAlphaBetaPrunningImpl G c (depth - 1) a b False = Some (y, r)
                  \<and> within a b (val c) r)"
    and "alpha <s beta"
  shows "\<exists>y r. minimaxAlphaBetaPrunningImpl_run G (ABLoop gen depth alpha beta True bn bs)
                 = Some (y, r) \<and> loop_post_max alpha beta bs (map val cs) r"
  using assms
proof (induction arbitrary: alpha bn bs rule: yields.induct)
  case (yields_Nil G gen m)
  then show ?case by (simp add: alphabeta_loop_nil loop_post_max_def word_sless_alt)
next
  case (yields_Cons G gen m c gen' cs)
  have g: "generator G gen True = Some (c, gen')"
    using yields_Cons.hyps(1) \<open>m\<close> by simp
  from yields_Cons.prems(2) have "alpha <s beta \<longrightarrow>
      (\<exists>y r. minimaxAlphaBetaPrunningImpl G c (depth - 1) alpha beta False = Some (y, r)
             \<and> within alpha beta (val c) r)"
    by simp
  with yields_Cons.prems(3) obtain y rc where
    rc: "minimaxAlphaBetaPrunningImpl G c (depth - 1) alpha beta False = Some (y, rc)"
    and w: "within alpha beta (val c) rc"
    by blast
  have rest: "\<forall>c\<in>set cs. \<forall>a b. a <s b \<longrightarrow>
           (\<exists>y r. minimaxAlphaBetaPrunningImpl G c (depth - 1) a b False = Some (y, r)
                  \<and> within a b (val c) r)"
    using yields_Cons.prems(2) by simp
  note step = alphabeta_loop_child_max [OF g rc]
  have ab: "sint alpha < sint beta"
    using yields_Cons.prems(3) by (simp add: word_sless_alt)
  consider (cut) "alpha <s rc" "beta \<le>s rc" | (raise) "alpha <s rc" "\<not> beta \<le>s rc"
    | (keep) "\<not> alpha <s rc"
    by blast
  then show ?case
  proof cases
    case cut
    then have "sint beta \<le> sint (val c)"
      using w ab by (auto simp: within_def word_sless_alt word_sle_eq)
    then have "sint beta \<le> foldl max (max (sint alpha) (sint (val c))) (map sint (map val cs))"
      using foldl_max_ge [of "max (sint alpha) (sint (val c))" "map sint (map val cs)"]
      by linarith
    then show ?thesis
      using cut ab by (simp add: step loop_post_max_def word_sle_eq)
  next
    case raise
    then have v: "rc = val c" "sint alpha < sint rc" "sint rc < sint beta"
      using w ab by (auto simp: within_def word_sless_alt word_sle_eq)
    have "rc <s beta" using v by (simp add: word_sless_alt)
    from yields_Cons.IH [OF \<open>m\<close> rest this, of "Some c" rc] obtain y' r where
      r: "minimaxAlphaBetaPrunningImpl_run G (ABLoop gen' depth rc beta True (Some c) rc)
            = Some (y', r)"
      and post: "loop_post_max rc beta rc (map val cs) r"
      by blast
    have m: "max (sint alpha) (sint (val c)) = sint rc"
      using v by simp
    have "loop_post_max alpha beta bs (map val (c # cs)) r"
      using post v foldl_max_ge [of "sint rc" "map sint (map val cs)"]
      by (auto simp: loop_post_max_def Let_def m)
    then show ?thesis
      using raise r by (simp add: step)
  next
    case keep
    then have v: "sint (val c) \<le> sint alpha"
      using w ab by (auto simp: within_def word_sless_alt word_sle_eq)
    from yields_Cons.IH [OF \<open>m\<close> rest yields_Cons.prems(3), of bn bs] obtain y' r where
      r: "minimaxAlphaBetaPrunningImpl_run G (ABLoop gen' depth alpha beta True bn bs)
            = Some (y', r)"
      and post: "loop_post_max alpha beta bs (map val cs) r"
      by blast
    have m: "max (sint alpha) (sint (val c)) = sint alpha"
      using v by simp
    have "loop_post_max alpha beta bs (map val (c # cs)) r"
      using post by (simp add: loop_post_max_def Let_def m)
    moreover have "\<not> beta \<le>s alpha"
      using ab by (simp add: word_sle_eq)
    ultimately show ?thesis
      using keep r by (simp add: step)
  qed
qed

lemma alphabeta_loop_min:
  assumes "yields G m gen cs" and "\<not> m"
    and "\<forall>c\<in>set cs. \<forall>a b. a <s b \<longrightarrow>
           (\<exists>y r. minimaxAlphaBetaPrunningImpl G c (depth - 1) a b True = Some (y, r)
                  \<and> within a b (val c) r)"
    and "alpha <s beta"
  shows "\<exists>y r. minimaxAlphaBetaPrunningImpl_run G (ABLoop gen depth alpha beta False bn bs)
                 = Some (y, r) \<and> loop_post_min alpha beta bs (map val cs) r"
  using assms
proof (induction arbitrary: beta bn bs rule: yields.induct)
  case (yields_Nil G gen m)
  then show ?case by (simp add: alphabeta_loop_nil loop_post_min_def word_sless_alt)
next
  case (yields_Cons G gen m c gen' cs)
  have g: "generator G gen False = Some (c, gen')"
    using yields_Cons.hyps(1) \<open>\<not> m\<close> by simp
  from yields_Cons.prems(2) have "alpha <s beta \<longrightarrow>
      (\<exists>y r. minimaxAlphaBetaPrunningImpl G c (depth - 1) alpha beta True = Some (y, r)
             \<and> within alpha beta (val c) r)"
    by simp
  with yields_Cons.prems(3) obtain y rc where
    rc: "minimaxAlphaBetaPrunningImpl G c (depth - 1) alpha beta True = Some (y, rc)"
    and w: "within alpha beta (val c) rc"
    by blast
  have rest: "\<forall>c\<in>set cs. \<forall>a b. a <s b \<longrightarrow>
           (\<exists>y r. minimaxAlphaBetaPrunningImpl G c (depth - 1) a b True = Some (y, r)
                  \<and> within a b (val c) r)"
    using yields_Cons.prems(2) by simp
  note step = alphabeta_loop_child_min [OF g rc]
  have ab: "sint alpha < sint beta"
    using yields_Cons.prems(3) by (simp add: word_sless_alt)
  consider (cut) "rc <s beta" "rc \<le>s alpha" | (lower) "rc <s beta" "\<not> rc \<le>s alpha"
    | (keep) "\<not> rc <s beta"
    by blast
  then show ?case
  proof cases
    case cut
    then have "sint (val c) \<le> sint alpha"
      using w ab by (auto simp: within_def word_sless_alt word_sle_eq)
    then have "foldl min (min (sint beta) (sint (val c))) (map sint (map val cs)) \<le> sint alpha"
      using foldl_min_le [of "min (sint beta) (sint (val c))" "map sint (map val cs)"]
      by linarith
    then show ?thesis
      using cut ab by (simp add: step loop_post_min_def word_sle_eq)
  next
    case lower
    then have v: "rc = val c" "sint alpha < sint rc" "sint rc < sint beta"
      using w ab by (auto simp: within_def word_sless_alt word_sle_eq)
    have "alpha <s rc" using v by (simp add: word_sless_alt)
    from yields_Cons.IH [OF \<open>\<not> m\<close> rest this, of "Some c" rc] obtain y' r where
      r: "minimaxAlphaBetaPrunningImpl_run G (ABLoop gen' depth alpha rc False (Some c) rc)
            = Some (y', r)"
      and post: "loop_post_min alpha rc rc (map val cs) r"
      by blast
    have m: "min (sint beta) (sint (val c)) = sint rc"
      using v by simp
    have "loop_post_min alpha beta bs (map val (c # cs)) r"
      using post v foldl_min_le [of "sint rc" "map sint (map val cs)"]
      by (auto simp: loop_post_min_def Let_def m)
    then show ?thesis
      using lower r by (simp add: step)
  next
    case keep
    then have v: "sint beta \<le> sint (val c)"
      using w ab by (auto simp: within_def word_sless_alt word_sle_eq)
    from yields_Cons.IH [OF \<open>\<not> m\<close> rest yields_Cons.prems(3), of bn bs] obtain y' r where
      r: "minimaxAlphaBetaPrunningImpl_run G (ABLoop gen' depth alpha beta False bn bs)
            = Some (y', r)"
      and post: "loop_post_min alpha beta bs (map val cs) r"
      by blast
    have m: "min (sint beta) (sint (val c)) = sint beta"
      using v by simp
    have "loop_post_min alpha beta bs (map val (c # cs)) r"
      using post by (simp add: loop_post_min_def Let_def m)
    moreover have "\<not> beta \<le>s alpha"
      using ab by (simp add: word_sle_eq)
    ultimately show ?thesis
      using keep r by (simp add: step)
  qed
qed

lemma foldl_max_max: "foldl max (max a b) xs = max (a :: int) (foldl max b xs)"
  by (induction xs arbitrary: b) (simp_all add: max.assoc)

lemma foldl_min_min: "foldl min (min a b) xs = min (a :: int) (foldl min b xs)"
  by (induction xs arbitrary: b) (simp_all add: min.assoc)

lemma within_max:
  assumes "loop_post_max alpha beta MinInt vs r"
    and "sint v = foldl max (sint MinInt) (map sint vs)"
  shows "within alpha beta v r"
proof -
  define M where "M = foldl max (sint alpha) (map sint vs)"
  have M: "M = max (sint alpha) (sint v)"
    using foldl_max_max [of "sint alpha" "sint MinInt" "map sint vs"] MinInt_least [of alpha]
    by (simp add: assms(2) max_absorb1 M_def)
  have p1: "sint beta \<le> M \<Longrightarrow> sint beta \<le> sint r"
    and p2: "sint alpha < M \<Longrightarrow> M < sint beta \<Longrightarrow> sint r = M"
    and p3: "M = sint alpha \<Longrightarrow> r = MinInt"
    using assms(1) by (simp_all add: loop_post_max_def M_def Let_def)
  have "r \<le>s alpha" if "v \<le>s alpha"
  proof -
    from that have "M = sint alpha" by (simp add: M word_sle_eq)
    then have "r = MinInt" by (rule p3)
    then show ?thesis by (simp add: word_sle_eq MinInt_least)
  qed
  moreover have "r = v" if "alpha <s v" "v <s beta"
  proof -
    from that have "M = sint v" "sint alpha < M" "M < sint beta"
      by (simp_all add: M word_sless_alt)
    then have "sint r = sint v" using p2 by simp
    then show ?thesis by (rule signed_word_eqI)
  qed
  moreover have "beta \<le>s r" if "beta \<le>s v"
  proof -
    from that have "sint beta \<le> M" by (simp add: M word_sle_eq)
    then show ?thesis using p1 by (simp add: word_sle_eq)
  qed
  ultimately show ?thesis by (simp add: within_def)
qed

lemma within_min:
  assumes "loop_post_min alpha beta MaxInt vs r"
    and "sint v = foldl min (sint MaxInt) (map sint vs)"
  shows "within alpha beta v r"
proof -
  define M where "M = foldl min (sint beta) (map sint vs)"
  have M: "M = min (sint beta) (sint v)"
    using foldl_min_min [of "sint beta" "sint MaxInt" "map sint vs"] MaxInt_greatest [of beta]
    by (simp add: assms(2) min_absorb1 M_def)
  have p1: "M \<le> sint alpha \<Longrightarrow> sint r \<le> sint alpha"
    and p2: "sint alpha < M \<Longrightarrow> M < sint beta \<Longrightarrow> sint r = M"
    and p3: "M = sint beta \<Longrightarrow> r = MaxInt"
    using assms(1) by (simp_all add: loop_post_min_def M_def Let_def)
  have "r \<le>s alpha" if "v \<le>s alpha"
  proof -
    from that have "M \<le> sint alpha" by (simp add: M word_sle_eq)
    then show ?thesis using p1 by (simp add: word_sle_eq)
  qed
  moreover have "r = v" if "alpha <s v" "v <s beta"
  proof -
    from that have "M = sint v" "sint alpha < M" "M < sint beta"
      by (simp_all add: M word_sless_alt)
    then have "sint r = sint v" using p2 by simp
    then show ?thesis by (rule signed_word_eqI)
  qed
  moreover have "beta \<le>s r" if "beta \<le>s v"
  proof -
    from that have "M = sint beta" by (simp add: M word_sle_eq)
    then have "r = MaxInt" by (rule p3)
    then show ?thesis by (simp add: word_sle_eq MaxInt_greatest)
  qed
  ultimately show ?thesis by (simp add: within_def)
qed

lemma yields_produced: "yields G m gen cs \<Longrightarrow> c \<in> set cs \<Longrightarrow> produced G m gen c"
  by (induction rule: yields.induct) (auto intro: produced.intros)

lemma reaches_from_child:
  assumes "reaches G c m0 t m'"
    and "m0 = (\<not> m)" and "\<not> IsTerminal G node"
    and "produced G m (SearchNodeGenerator G node) c"
  shows "reaches G node m t m'"
  using assms
proof (induction rule: reaches.induct)
  case (reaches_here G c m0)
  then show ?case
    using reaches_child [OF reaches.reaches_here, of G node m c] by simp
next
  case (reaches_child G c m0 t m' c')
  then show ?case
    by (auto intro: reaches.reaches_child)
qed

lemma generators_end_child:
  "generators_end G node m \<Longrightarrow> \<not> IsTerminal G node \<Longrightarrow>
   produced G m (SearchNodeGenerator G node) c \<Longrightarrow> generators_end G c (\<not> m)"
proof -
  assume ge: "generators_end G node m" and nt: "\<not> IsTerminal G node"
    and pr: "produced G m (SearchNodeGenerator G node) c"
  show "generators_end G c (\<not> m)"
    unfolding generators_end_def
  proof (intro allI impI)
    fix t m' assume r: "reaches G c (\<not> m) t m'" and t: "\<not> IsTerminal G t"
    have "reaches G node m t m'"
      by (rule reaches_from_child [OF r refl nt pr])
    with ge t show "\<exists>cs. yields G m' (SearchNodeGenerator G t) cs"
      unfolding generators_end_def by blast
  qed
qed

lemma generators_end_here:
  "generators_end G node m \<Longrightarrow> \<not> IsTerminal G node \<Longrightarrow>
     \<exists>cs. yields G m (SearchNodeGenerator G node) cs"
  unfolding generators_end_def
  using reaches_here [of G node m] by blast


lemma depth_nat: "0 \<le>s (depth :: go_int) \<Longrightarrow> sint depth = int (nat (sint depth))"
  by (simp add: word_sle_eq)

lemma MinInt_less_MaxInt: "MinInt <s MaxInt"
  by (simp add: word_sless_alt sint_MinInt sint_MaxInt)

lemma within_full: "within MinInt MaxInt v r \<Longrightarrow> r = v"
proof -
  assume w: "within MinInt MaxInt v r"
  consider "v \<le>s MinInt" | "\<not> v \<le>s MinInt" "\<not> MaxInt \<le>s v" | "MaxInt \<le>s v"
    by blast
  then show "r = v"
  proof cases
    case 1
    then have "sint r \<le> sint MinInt" "sint v \<le> sint MinInt"
      using w by (simp_all add: within_def word_sle_eq)
    then have "sint r = sint v"
      using MinInt_least [of r] MinInt_least [of v] by simp
    then show ?thesis by (rule signed_word_eqI)
  next
    case 2
    then have "MinInt <s v" "v <s MaxInt"
      by (simp_all add: word_sle_eq word_sless_alt)
    then show ?thesis using w by (simp add: within_def)
  next
    case 3
    then have "sint MaxInt \<le> sint r" "sint MaxInt \<le> sint v"
      using w by (simp_all add: within_def word_sle_eq)
    then have "sint r = sint v"
      using MaxInt_greatest [of r] MaxInt_greatest [of v] by simp
    then show ?thesis by (rule signed_word_eqI)
  qed
qed

lemma Minimax_run_returned:
  assumes "Minimax_run G f = Some r"
  shows "Minimax_run G f = Some r \<and> loop_ok G f"
proof (rule Minimax_run.raw_induct
    [where P = "\<lambda>G f r. Minimax_run G f = Some r \<and> loop_ok G f", OF _ assms], goal_cases)
  case (1 run G f r)
  show ?case
  proof (cases f)
    case (Call node depth maximizing)
    show ?thesis
    proof (cases "depth = 0 \<or> IsTerminal G node")
      case True
      with 1(2) Call show ?thesis
        by (auto simp: Minimax_run.simps [of G "Call node depth maximizing"] loop_ok_def)
    next
      case False
      with 1(2) Call have "run G (Loop (SearchNodeGenerator G node) depth maximizing None
          (MinimaxInitScore maximizing)) = Some r"
        by simp
      from 1(1) [OF this] have "Minimax_run G (Loop (SearchNodeGenerator G node) depth
          maximizing None (MinimaxInitScore maximizing)) = Some r"
        by blast
      moreover have "loop_ok G f"
        by (simp add: Call loop_ok_def)
      ultimately show ?thesis
        using False Call
        by (simp add: Minimax_run.simps [of G "Call node depth maximizing"])
    qed
  next
    case (Loop gen depth maximizing bestNode bestScore)
    show ?thesis
    proof (cases "generator G gen maximizing")
      case None
      with 1(2) Loop show ?thesis
        by (auto simp: Minimax_loop_nil loop_ok_def intro: yields_Nil)
    next
      case (Some a)
      obtain c gen' where a: "a = (c, gen')" by (cases a)
      have g: "generator G gen maximizing = Some (c, gen')"
        using Some a by simp
      from 1(2) Loop g obtain x ns where
        c: "run G (Call c (depth - 1) (\<not> maximizing)) = Some (x, ns)"
        and rest: "(if (maximizing \<and> bestScore \<le>s ns) \<or> (\<not> maximizing \<and> ns \<le>s bestScore)
                    then run G (Loop gen' depth maximizing (Some c) ns)
                    else run G (Loop gen' depth maximizing bestNode bestScore)) = Some r"
        by (auto simp: bind_eq_Some_conv)
      from 1(1) [OF c] have c': "Minimax G c (depth - 1) (\<not> maximizing) = Some (x, ns)"
        by (simp add: Minimax_def)
      have "Minimax_run G (Loop gen depth maximizing bestNode bestScore) = Some r
          \<and> loop_ok G (Loop gen' depth maximizing bestNode bestScore)"
      proof (cases "(maximizing \<and> bestScore \<le>s ns) \<or> (\<not> maximizing \<and> ns \<le>s bestScore)")
        case True
        with rest have "run G (Loop gen' depth maximizing (Some c) ns) = Some r"
          by simp
        from 1(1) [OF this] show ?thesis
          by (simp only: Minimax_loop_child [OF g c'] if_P [OF True]) (simp add: loop_ok_def)
      next
        case False
        with rest have "run G (Loop gen' depth maximizing bestNode bestScore) = Some r"
          by simp
        from 1(1) [OF this] show ?thesis
          by (simp only: Minimax_loop_child [OF g c'] if_not_P [OF False])
      qed
      then obtain cs where
        r': "Minimax_run G (Loop gen depth maximizing bestNode bestScore) = Some r"
        and cs: "yields G maximizing gen' cs"
          "\<forall>c\<in>set cs. \<exists>r. Minimax G c (depth - 1) (\<not> maximizing) = Some r"
        by (auto simp: loop_ok_def)
      have "yields G maximizing gen (c # cs)"
        using g cs(1) by (rule yields_Cons)
      then have "loop_ok G f"
        using cs(2) c' by (auto simp: Loop loop_ok_def intro!: exI [of _ "c # cs"])
      with r' show ?thesis
        by (simp add: Loop)
    qed
  qed
qed

lemma Minimax_searchable:
  "sint depth = int n \<Longrightarrow> Minimax G node depth m = Some r \<Longrightarrow> searchable G n node m"
proof (induction n arbitrary: node depth m r)
  case 0
  then show ?case by simp
next
  case (Suc n)
  show ?case
  proof (cases "IsTerminal G node")
    case True
    then show ?thesis by simp
  next
    case False
    from Suc.prems(1) have pos: "0 < sint depth" by simp
    then have d: "depth \<noteq> 0" "sint (depth - 1) = int n"
      using Suc.prems(1) by (auto simp: depth_pred)
    from Suc.prems(2) have "Minimax_run G (Loop (SearchNodeGenerator G node) depth m None
        (MinimaxInitScore m)) = Some r"
      by (simp add: Minimax_expand [OF d(1) False])
    from Minimax_run_returned [OF this] obtain cs where
      cs: "yields G m (SearchNodeGenerator G node) cs"
      "\<forall>c\<in>set cs. \<exists>r. Minimax G c (depth - 1) (\<not> m) = Some r"
      by (auto simp: loop_ok_def)
    have "\<forall>c\<in>set cs. searchable G n c (\<not> m)"
      using cs(2) Suc.IH [OF d(2)] by blast
    with cs(1) show ?thesis by auto
  qed
qed

lemma generators_end_searchable: "generators_end G node m \<Longrightarrow> searchable G n node m"
proof (induction n arbitrary: node m)
  case 0
  then show ?case by simp
next
  case (Suc n)
  show ?case
  proof (cases "IsTerminal G node")
    case True
    then show ?thesis by simp
  next
    case False
    from generators_end_here [OF Suc.prems False] obtain cs where
      cs: "yields G m (SearchNodeGenerator G node) cs" ..
    have "\<forall>c\<in>set cs. searchable G n c (\<not> m)"
      using Suc.IH generators_end_child [OF Suc.prems False] yields_produced [OF cs] by blast
    with cs show ?thesis by auto
  qed
qed

lemma search_window_searchable:
  "sint depth = int n \<Longrightarrow> searchable G n node m \<Longrightarrow>
     \<exists>x v. Minimax G node depth m = Some (x, v) \<and>
       (\<forall>a b. a <s b \<longrightarrow>
          (\<exists>y r. minimaxAlphaBetaPrunningImpl G node depth a b m = Some (y, r) \<and> within a b v r))"
proof (induction n arbitrary: node depth m)
  case 0
  then have "depth = 0" by (simp add: sint_zero_iff)
  then show ?case
    by (simp add: Minimax_base alphabeta_base within_def)
next
  case (Suc n)
  show ?case
  proof (cases "IsTerminal G node")
    case True
    then show ?thesis
      by (simp add: Minimax_base alphabeta_base within_def)
  next
    case False
    from Suc.prems(1) have pos: "0 < sint depth" by simp
    then have d: "depth \<noteq> 0" "\<not> depth \<le>s 0" "sint (depth - 1) = int n"
      using Suc.prems(1) by (auto simp: word_sle_eq depth_pred)
    from Suc.prems(2) False obtain cs where
      cs: "yields G m (SearchNodeGenerator G node) cs"
      and kids: "\<forall>c\<in>set cs. searchable G n c (\<not> m)"
      by auto
    have "\<forall>c\<in>set cs. \<exists>v. (\<exists>x. Minimax G c (depth - 1) (\<not> m) = Some (x, v)) \<and>
            (\<forall>a b. a <s b \<longrightarrow>
               (\<exists>y r. minimaxAlphaBetaPrunningImpl G c (depth - 1) a b (\<not> m) = Some (y, r)
                      \<and> within a b v r))"
    proof
      fix c assume "c \<in> set cs"
      with kids have "searchable G n c (\<not> m)" ..
      from Suc.IH [OF d(3) this] show "\<exists>v. (\<exists>x. Minimax G c (depth - 1) (\<not> m) = Some (x, v)) \<and>
            (\<forall>a b. a <s b \<longrightarrow>
               (\<exists>y r. minimaxAlphaBetaPrunningImpl G c (depth - 1) a b (\<not> m) = Some (y, r)
                      \<and> within a b v r))"
        by blast
    qed
    then obtain val where
      val: "\<forall>c\<in>set cs. (\<exists>x. Minimax G c (depth - 1) (\<not> m) = Some (x, val c)) \<and>
            (\<forall>a b. a <s b \<longrightarrow>
               (\<exists>y r. minimaxAlphaBetaPrunningImpl G c (depth - 1) a b (\<not> m) = Some (y, r)
                      \<and> within a b (val c) r))"
      using bchoice [of "set cs" "\<lambda>c v. (\<exists>x. Minimax G c (depth - 1) (\<not> m) = Some (x, v)) \<and>
            (\<forall>a b. a <s b \<longrightarrow>
               (\<exists>y r. minimaxAlphaBetaPrunningImpl G c (depth - 1) a b (\<not> m) = Some (y, r)
                      \<and> within a b v r))"]
      by blast
    define best where
      "best = foldl (accept m) (None, MinimaxInitScore m) (map (\<lambda>c. (c, val c)) cs)"
    have mm: "Minimax G node depth m = Some (fst best, snd best)"
      using Minimax_loop_yields [OF cs, of depth val None "MinimaxInitScore m"] val False d
      by (simp add: Minimax_expand best_def)
    have "\<exists>y r. minimaxAlphaBetaPrunningImpl G node depth a b m = Some (y, r)
                \<and> within a b (snd best) r" if ab: "a <s b" for a b
    proof (cases m)
      case True
      have wins: "\<forall>c\<in>set cs. \<forall>a b. a <s b \<longrightarrow>
           (\<exists>y r. minimaxAlphaBetaPrunningImpl G c (depth - 1) a b False = Some (y, r)
                  \<and> within a b (val c) r)"
        using val True by simp
      from alphabeta_loop_max [OF cs True wins ab, of None MinInt] obtain y r where
        r: "minimaxAlphaBetaPrunningImpl_run G
              (ABLoop (SearchNodeGenerator G node) depth a b True None MinInt) = Some (y, r)"
        and post: "loop_post_max a b MinInt (map val cs) r"
        by blast
      have "sint (snd best) = foldl max (sint MinInt) (map sint (map val cs))"
        using True by (simp add: best_def accept_score_max MinimaxInitScore_def comp_def)
      from within_max [OF post this] show ?thesis
        using r True False d by (simp add: alphabeta_expand MinimaxInitScore_def)
    next
      case False': False
      have wins: "\<forall>c\<in>set cs. \<forall>a b. a <s b \<longrightarrow>
           (\<exists>y r. minimaxAlphaBetaPrunningImpl G c (depth - 1) a b True = Some (y, r)
                  \<and> within a b (val c) r)"
        using val False' by simp
      from alphabeta_loop_min [OF cs False' wins ab, of None MaxInt] obtain y r where
        r: "minimaxAlphaBetaPrunningImpl_run G
              (ABLoop (SearchNodeGenerator G node) depth a b False None MaxInt) = Some (y, r)"
        and post: "loop_post_min a b MaxInt (map val cs) r"
        by blast
      have "sint (snd best) = foldl min (sint MaxInt) (map sint (map val cs))"
        using False' by (simp add: best_def accept_score_min MinimaxInitScore_def comp_def)
      from within_min [OF post this] show ?thesis
        using r False' False d by (simp add: alphabeta_expand MinimaxInitScore_def)
    qed
    with mm show ?thesis by blast
  qed
qed

lemma search_window:
  "sint depth = int n \<Longrightarrow> generators_end G node m \<Longrightarrow>
     \<exists>x v. Minimax G node depth m = Some (x, v) \<and>
       (\<forall>a b. a <s b \<longrightarrow>
          (\<exists>y r. minimaxAlphaBetaPrunningImpl G node depth a b m = Some (y, r) \<and> within a b v r))"
proof -
  assume "sint depth = int n" and "generators_end G node m"
  then show ?thesis
    by (intro search_window_searchable generators_end_searchable)
qed

lemma returned_agree:
  assumes "0 \<le>s depth" and "Minimax G node depth m = Some (x, v)"
  shows "\<exists>y. MinimaxAlphaBetaPrunning G node depth m = Some (y, v)"
proof -
  note d = depth_nat [OF assms(1)]
  from search_window_searchable [OF d Minimax_searchable [OF d assms(2)]] assms(2) have
    "\<forall>a b. a <s b \<longrightarrow>
       (\<exists>y r. minimaxAlphaBetaPrunningImpl G node depth a b m = Some (y, r) \<and> within a b v r)"
    by simp
  with MinInt_less_MaxInt obtain y r where
    "minimaxAlphaBetaPrunningImpl G node depth MinInt MaxInt m = Some (y, r)"
    "within MinInt MaxInt v r"
    by blast
  then show ?thesis
    using within_full by (auto simp: MinimaxAlphaBetaPrunning_def)
qed

lemma search_agree:
  assumes "0 \<le>s depth" and "generators_end G node m"
  shows "\<exists>x y v. Minimax G node depth m = Some (x, v)
            \<and> MinimaxAlphaBetaPrunning G node depth m = Some (y, v)"
proof -
  from search_window [OF depth_nat [OF assms(1)] assms(2)] obtain x v where
    mm: "Minimax G node depth m = Some (x, v)"
    and ab: "\<forall>a b. a <s b \<longrightarrow>
          (\<exists>y r. minimaxAlphaBetaPrunningImpl G node depth a b m = Some (y, r) \<and> within a b v r)"
    by blast
  from ab MinInt_less_MaxInt obtain y r where
    "minimaxAlphaBetaPrunningImpl G node depth MinInt MaxInt m = Some (y, r)"
    "within MinInt MaxInt v r"
    by blast
  then show ?thesis
    using mm within_full by (auto simp: MinimaxAlphaBetaPrunning_def)
qed

section \<open>Minimax and the pruned search\<close>

lemma Minimax_toy_tie: "Minimax toy 5 1 True = Some (Some 6, 5)"
  by (simp add: Minimax_expand Minimax_base MinimaxInitScore_def MinInt_def word_sle_eq
        Minimax_loop_child [where x = "Some 1" and newScore = 5]
        Minimax_loop_child [where x = "Some 6" and newScore = 5]
        Minimax_loop_child [where x = "Some 7" and newScore = 3]
        Minimax_loop_nil)

lemma alphabeta_negative_depth:
  "depth <s 0 \<Longrightarrow>
     MinimaxAlphaBetaPrunning G node depth maximizing = Some (Some node, Score G node)"
  by (simp add: MinimaxAlphaBetaPrunning_def alphabeta_base word_sle_eq word_sless_alt)

text \<open>
  For every position, every depth that is not negative and both sides to move:
  whenever \<^verbatim>\<open>Minimax\<close> returns, \<^verbatim>\<open>MinimaxAlphaBetaPrunning\<close> returns too, with the
  same score (the returned nodes may differ).
\<close>

lemma alphabeta_same_score:
  assumes "0 \<le>s depth" and "Minimax G node depth maximizing = Some (x, v)"
  shows "\<exists>y. MinimaxAlphaBetaPrunning G node depth maximizing = Some (y, v)"
  using assms by (rule returned_agree)

lemma alphabeta_same_score_toy:
  "\<exists>y. MinimaxAlphaBetaPrunning toy 5 1 True = Some (y, 5)"
  using alphabeta_same_score [of 1 toy 5 True "Some 6" 5] Minimax_toy_tie
  by (simp add: word_sle_eq)

section \<open>The consumer\<close>

lemma consume_beats: "consume m b r = (if beats m r b then r else b)"
  by (auto simp: consume_def beats_def better_def Let_def)

lemma beats_irrefl: "\<not> beats m r r"
  by (simp add: beats_def better_def word_sless_alt)

lemma beats_trans: "beats m a b \<Longrightarrow> beats m b c \<Longrightarrow> beats m a c"
  by (auto simp: beats_def better_def word_sless_alt split: if_splits)

lemma beats_total:
  "\<not> beats m a b \<Longrightarrow> \<not> beats m b a \<Longrightarrow> res_score a = res_score b \<and> res_jobId a = res_jobId b"
proof -
  assume a: "\<not> beats m a b" and b: "\<not> beats m b a"
  have "sint (res_score a) = sint (res_score b)"
    using a b by (cases m) (auto simp: beats_def better_def word_sless_alt)
  then have "res_score a = res_score b" by (rule signed_word_eqI)
  then show ?thesis using a b by (auto simp: beats_def)
qed

lemma consumer_fold_inv:
  "(foldl (consume m) b rs = b \<or>
      (foldl (consume m) b rs \<in> set rs \<and> beats m (foldl (consume m) b rs) b))
   \<and> (\<forall>r\<in>set rs. \<not> beats m r (foldl (consume m) b rs))"
proof (induction rs arbitrary: b)
  case Nil
  then show ?case by simp
next
  case (Cons r rs)
  define b1 where "b1 = consume m b r"
  define b' where "b' = foldl (consume m) b1 rs"
  from Cons [of b1] have ih1: "b' = b1 \<or> (b' \<in> set rs \<and> beats m b' b1)"
    and ih2: "\<forall>r\<in>set rs. \<not> beats m r b'"
    by (simp_all add: b'_def)
  have b1: "b1 = (if beats m r b then r else b)"
    by (simp add: b1_def consume_beats)
  have "b' = b \<or> (b' \<in> set (r # rs) \<and> beats m b' b)"
    using ih1 b1 beats_trans [of m b' r b] by (auto split: if_splits)
  moreover have "\<not> beats m r b'"
    using ih1 b1 beats_irrefl [of m r] beats_trans [of m r b' b] beats_trans [of m r b' r]
    by (auto split: if_splits)
  ultimately show ?case
    using ih2 by (simp add: b'_def b1_def)
qed

lemma consumer_best_unique:
  assumes "set rs' = set rs" and "inj_on res_jobId (set rs)"
  shows "foldl (consume m) b rs' = foldl (consume m) b rs"
proof -
  define x where "x = foldl (consume m) b rs'"
  define y where "y = foldl (consume m) b rs"
  have x: "x = b \<or> (x \<in> set rs \<and> beats m x b)" "\<forall>r\<in>set rs. \<not> beats m r x"
    using consumer_fold_inv [of m b rs'] assms(1) by (simp_all add: x_def)
  have y: "y = b \<or> (y \<in> set rs \<and> beats m y b)" "\<forall>r\<in>set rs. \<not> beats m r y"
    using consumer_fold_inv [of m b rs] by (simp_all add: y_def)
  consider "x = b" "y = b" | "x = b" "y \<in> set rs" "beats m y b"
    | "y = b" "x \<in> set rs" "beats m x b" | "x \<in> set rs" "y \<in> set rs"
    using x(1) y(1) by blast
  then have "x = y"
  proof cases
    case 1 then show ?thesis by simp
  next
    case 2 then show ?thesis using x(2) by blast
  next
    case 3 then show ?thesis using y(2) by blast
  next
    case 4
    then have "\<not> beats m x y" "\<not> beats m y x" using x(2) y(2) by blast+
    then have "res_jobId x = res_jobId y" using beats_total by blast
    with 4 assms(2) show ?thesis by (auto dest: inj_onD)
  qed
  then show ?thesis by (simp add: x_def y_def)
qed

lemma consumer_order:
  assumes "distinct (map res_jobId rs)" and "mset rs' = mset rs"
  shows "minimaxConcurrentConsumer m rs' = minimaxConcurrentConsumer m rs"
proof -
  have "set rs' = set rs" using assms(2) by (rule mset_eq_setD)
  moreover have "inj_on res_jobId (set rs)"
    using assms(1) by (simp add: distinct_map)
  ultimately have "consumer_best m rs' = consumer_best m rs"
    unfolding consumer_best_def by (rule consumer_best_unique)
  then show ?thesis
    by (simp add: minimaxConcurrentConsumer_def)
qed

lemma mset_arrival: "mset (arrival sched xs) = mset xs"
proof (induction sched xs rule: arrival.induct)
  case (3 k sched x xs)
  define i where "i = k mod length (x # xs)"
  have i: "i < length (x # xs)" by (simp add: i_def)
  have "mset (x # xs) = mset (take i (x # xs) @ (x # xs) ! i # drop (Suc i) (x # xs))"
    using id_take_nth_drop [OF i] by simp
  then have "mset (take i (x # xs) @ drop (Suc i) (x # xs)) + {# (x # xs) ! i #} = mset (x # xs)"
    by (simp del: take_Cons' drop_Suc_Cons nth_Cons')
  then show ?case
    using 3 [of i] by (simp add: i_def Let_def)
qed simp_all

lemma arrival_any_order: "mset ys = mset xs \<Longrightarrow> \<exists>sched. arrival sched xs = ys"
proof (induction ys arbitrary: xs)
  case Nil
  then have "xs = []" by simp
  then show ?case by simp
next
  case (Cons y ys)
  then have "y \<in> set xs"
    by (metis list.set_intros(1) mset_eq_setD)
  then obtain i where i: "i < length xs" "xs ! i = y"
    by (auto simp: in_set_conv_nth)
  define xs' where "xs' = take i xs @ drop (Suc i) xs"
  have "mset xs = mset (take i xs @ xs ! i # drop (Suc i) xs)"
    using id_take_nth_drop [OF i(1)] by simp
  then have "mset xs = add_mset y (mset xs')"
    by (simp add: xs'_def i(2))
  with Cons.prems have "mset ys = mset xs'" by simp
  from Cons.IH [OF this] obtain sched where sched: "arrival sched xs' = ys" ..
  obtain x0 xs0 where xs: "xs = x0 # xs0"
    using i(1) by (cases xs) auto
  have "arrival (i # sched) xs = y # ys"
    using i sched by (simp add: xs Let_def xs'_def del: take_Cons' drop_Suc_Cons nth_Cons')
  then show ?case ..
qed

lemma consumer_best_cases:
  "(consumer_best m rs = WorkerResult (- 1) None (MinimaxInitScore m) \<or>
      (consumer_best m rs \<in> set rs \<and>
       beats m (consumer_best m rs) (WorkerResult (- 1) None (MinimaxInitScore m))))
   \<and> (\<forall>r\<in>set rs. \<not> beats m r (consumer_best m rs))"
  unfolding consumer_best_def by (rule consumer_fold_inv)

lemma not_better_sentinel: "\<not> better m (MinimaxInitScore m) x"
  using MinInt_least [of x] MaxInt_greatest [of x]
  by (simp add: better_def MinimaxInitScore_def word_sless_alt)

lemma consumer_best_sentinel:
  assumes "\<forall>r\<in>set rs. 0 \<le> res_jobId r"
    and "\<not> (\<exists>r\<in>set rs. better m (res_score r) (MinimaxInitScore m))"
  shows "consumer_best m rs = WorkerResult (- 1) None (MinimaxInitScore m)"
proof (rule ccontr)
  assume "consumer_best m rs \<noteq> WorkerResult (- 1) None (MinimaxInitScore m)"
  then have in_rs: "consumer_best m rs \<in> set rs"
    and b: "beats m (consumer_best m rs) (WorkerResult (- 1) None (MinimaxInitScore m))"
    using consumer_best_cases [of m rs] by blast+
  from in_rs assms have "0 \<le> res_jobId (consumer_best m rs)"
    "\<not> better m (res_score (consumer_best m rs)) (MinimaxInitScore m)"
    by blast+
  with b show False by (simp add: beats_def)
qed

lemma consumer_best_optimal:
  assumes "\<exists>r\<in>set rs. better m (res_score r) (MinimaxInitScore m)"
  shows "consumer_best m rs \<in> set rs \<and>
         (\<forall>r\<in>set rs. \<not> better m (res_score r) (res_score (consumer_best m rs)) \<and>
            (res_score r = res_score (consumer_best m rs) \<longrightarrow>
               res_jobId (consumer_best m rs) \<le> res_jobId r))"
proof -
  from assms obtain r where r: "r \<in> set rs" "better m (res_score r) (MinimaxInitScore m)"
    by blast
  have no: "\<forall>r\<in>set rs. \<not> beats m r (consumer_best m rs)"
    using consumer_best_cases [of m rs] by blast
  have "consumer_best m rs \<noteq> WorkerResult (- 1) None (MinimaxInitScore m)"
  proof
    assume "consumer_best m rs = WorkerResult (- 1) None (MinimaxInitScore m)"
    with no r(1) have "\<not> beats m r (WorkerResult (- 1) None (MinimaxInitScore m))" by metis
    with r(2) show False by (simp add: beats_def)
  qed
  then have "consumer_best m rs \<in> set rs"
    using consumer_best_cases [of m rs] by blast
  moreover have "\<not> better m (res_score r) (res_score (consumer_best m rs)) \<and>
            (res_score r = res_score (consumer_best m rs) \<longrightarrow>
               res_jobId (consumer_best m rs) \<le> res_jobId r)" if "r \<in> set rs" for r
    using no that by (auto simp: beats_def)
  ultimately show ?thesis by blast
qed

text \<open>
  C3, as stated, fails for a result whose score is the initial score: with the
  single result of job 0 for node 4 with score \<^verbatim>\<open>math.MinInt\<close>, a maximizing
  consumer returns the \<^verbatim>\<open>nil\<close> node of its initial \<^verbatim>\<open>best\<close>, not the node of
  the result.
\<close>

theorem consumer_returns_nil_for_sentinel_result:
  "minimaxConcurrentConsumer True [WorkerResult 0 (Some (4 :: nat)) MinInt] = (None, MinInt)
   \<and> (None, MinInt) \<noteq> (Some (4 :: nat), MinInt)"
  by (simp add: minimaxConcurrentConsumer_def consumer_best_def consume_def
        MinimaxInitScore_def word_sless_alt)

text \<open>
  C3, amended. For results with distinct job ids, none negative, the consumer
  returns the same pair in whatever order the results arrive. If some result
  has a score strictly better for the side than the initial score, the pair is
  the node and score of a result that no result beats on score and that has
  the smallest job id among the results of equal score; otherwise it is the
  \<^verbatim>\<open>nil\<close> node with the initial score.
\<close>

theorem consumer_order_invariant:
  assumes "distinct (map res_jobId rs)" and "\<forall>r\<in>set rs. 0 \<le> res_jobId r"
    and "mset rs' = mset rs"
  shows "minimaxConcurrentConsumer m rs' = minimaxConcurrentConsumer m rs \<and>
     (if \<exists>r\<in>set rs. better m (res_score r) (MinimaxInitScore m)
      then \<exists>r\<in>set rs. minimaxConcurrentConsumer m rs = (res_node r, res_score r) \<and>
             (\<forall>r'\<in>set rs. \<not> better m (res_score r') (res_score r) \<and>
                (res_score r' = res_score r \<longrightarrow> res_jobId r \<le> res_jobId r'))
      else minimaxConcurrentConsumer m rs = (None, MinimaxInitScore m))"
proof -
  have "minimaxConcurrentConsumer m rs' = minimaxConcurrentConsumer m rs"
    using assms(1,3) by (rule consumer_order)
  moreover have "\<exists>r\<in>set rs. minimaxConcurrentConsumer m rs = (res_node r, res_score r) \<and>
             (\<forall>r'\<in>set rs. \<not> better m (res_score r') (res_score r) \<and>
                (res_score r' = res_score r \<longrightarrow> res_jobId r \<le> res_jobId r'))"
    if "\<exists>r\<in>set rs. better m (res_score r) (MinimaxInitScore m)"
    using consumer_best_optimal [OF that]
    by (intro bexI [of _ "consumer_best m rs"])
       (simp_all add: minimaxConcurrentConsumer_def Let_def)
  moreover have "minimaxConcurrentConsumer m rs = (None, MinimaxInitScore m)"
    if "\<not> (\<exists>r\<in>set rs. better m (res_score r) (MinimaxInitScore m))"
    using consumer_best_sentinel [OF assms(2) that]
    by (simp add: minimaxConcurrentConsumer_def)
  ultimately show ?thesis by simp
qed

theorem consumer_order_invariant_witness:
  "minimaxConcurrentConsumer True
     [WorkerResult 2 (Some (7 :: nat)) 3, WorkerResult 1 (Some 6) 5, WorkerResult 0 (Some 1) 5]
   = (Some 1, 5)
   \<and> minimaxConcurrentConsumer True
     [WorkerResult 0 (Some (1 :: nat)) 5, WorkerResult 1 (Some 6) 5, WorkerResult 2 (Some 7) 3]
   = (Some 1, 5)"
  using consumer_order_invariant [of
    "[WorkerResult 0 (Some (1 :: nat)) 5, WorkerResult 1 (Some 6) 5, WorkerResult 2 (Some 7) 3]"
    "[WorkerResult 2 (Some (7 :: nat)) 3, WorkerResult 1 (Some 6) 5, WorkerResult 0 (Some 1) 5]"
    True]
  by (simp add: minimaxConcurrentConsumer_def consumer_best_def consume_def
        MinimaxInitScore_def MinInt_def word_sless_alt)

section \<open>The concurrent search\<close>

lemma feeder_yields:
  "yields G m gen cs \<Longrightarrow>
     minimaxConcurrentFeeder_loop G gen depth m k = Some (jobs_of k cs (depth - 1) (\<not> m))"
proof (induction arbitrary: k rule: yields.induct)
  case (yields_Nil G gen m)
  then show ?case by (simp add: feeder_nil)
next
  case (yields_Cons G gen m c gen' cs)
  then show ?case by (simp add: feeder_child)
qed

lemma workers_results:
  "\<forall>c\<in>set cs. \<exists>y. MinimaxAlphaBetaPrunning G c d m = Some (y, val c) \<Longrightarrow>
     those (map (minimaxConcurrentWorker G) (jobs_of k cs d m)) = Some (results_of k cs val)"
  by (induction cs arbitrary: k) (auto simp: minimaxConcurrentWorker_def)

lemma results_ids: "r \<in> set (results_of k cs val) \<Longrightarrow> k \<le> res_jobId r"
  by (induction cs arbitrary: k) fastforce+

lemma results_distinct: "distinct (map res_jobId (results_of k cs val))"
  by (induction cs arbitrary: k) (auto dest: results_ids)

lemma results_scores: "map res_score (results_of k cs val) = map val cs"
  by (induction cs arbitrary: k) auto

lemma consume_score_max:
  "sint (res_score (foldl (consume True) b rs)) =
     foldl max (sint (res_score b)) (map sint (map res_score rs))"
  by (induction rs arbitrary: b)
     (auto simp: consume_beats beats_def better_def word_sless_alt max_def)

lemma consume_score_min:
  "sint (res_score (foldl (consume False) b rs)) =
     foldl min (sint (res_score b)) (map sint (map res_score rs))"
  by (induction rs arbitrary: b)
     (auto simp: consume_beats beats_def better_def word_sless_alt min_def)

lemma consumer_score:
  "res_score (consumer_best m (results_of k cs val)) =
     snd (foldl (accept m) (None, MinimaxInitScore m) (map (\<lambda>c. (c, val c)) cs))"
proof (rule signed_word_eqI, cases m)
  case True
  then show "sint (res_score (consumer_best m (results_of k cs val))) =
     sint (snd (foldl (accept m) (None, MinimaxInitScore m) (map (\<lambda>c. (c, val c)) cs)))"
    by (simp add: consumer_best_def consume_score_max accept_score_max results_scores comp_def)
next
  case False
  then show "sint (res_score (consumer_best m (results_of k cs val))) =
     sint (snd (foldl (accept m) (None, MinimaxInitScore m) (map (\<lambda>c. (c, val c)) cs)))"
    by (simp add: consumer_best_def consume_score_min accept_score_min results_scores comp_def)
qed

lemma makeChan_Some: "makeChan limit sz \<noteq> None \<Longrightarrow> makeChan limit sz = Some sz"
  by (simp add: makeChan_def split: if_splits)

lemma pool_made:
  assumes "pool L workers"
  shows "0 <s workers"
    and "makeChan (jobsLimit L) (workers * 5) = Some (workers * 5)"
    and "makeChan (resultsLimit L) (workers * 5) = Some (workers * 5)"
  using assms by (simp_all add: pool_def makeChan_Some)

lemma pool_two: "pool limits64 1" "pool limits64 2"
  by (simp_all add: pool_def makeChan_def limits64_def word_sless_alt)

lemma concurrent_expand:
  assumes "depth \<noteq> 0" and "\<not> IsTerminal G node" and "pool L workers"
    and "yields G m (SearchNodeGenerator G node) cs"
    and "\<forall>c\<in>set cs. \<exists>y. MinimaxAlphaBetaPrunning G c (depth - 1) (\<not> m) = Some (y, val c)"
  shows "MinimaxConcurrent L G node depth m workers sched =
           Some (minimaxConcurrentConsumer m (results_of 0 cs val))"
proof -
  have "minimaxConcurrentFeeder G node depth m = Some (jobs_of 0 cs (depth - 1) (\<not> m))"
    unfolding minimaxConcurrentFeeder_def using assms(4) by (rule feeder_yields)
  moreover have "those (map (minimaxConcurrentWorker G) (jobs_of 0 cs (depth - 1) (\<not> m)))
      = Some (results_of 0 cs val)"
    using assms(5) by (rule workers_results)
  moreover have "minimaxConcurrentConsumer m (arrival sched (results_of 0 cs val))
      = minimaxConcurrentConsumer m (results_of 0 cs val)"
    using results_distinct mset_arrival by (rule consumer_order)
  ultimately show ?thesis
    using assms(1,2) pool_made [OF assms(3)] by (simp add: MinimaxConcurrent_def)
qed

lemma depth_pred_nonneg:
  assumes "0 \<le>s (depth :: go_int)" and "depth \<noteq> 0"
  shows "0 \<le>s depth - 1" and "\<not> depth \<le>s 0"
proof -
  have "0 < sint depth"
    using assms sint_zero_iff [of depth] by (simp add: word_sle_eq)
  then show "0 \<le>s depth - 1" and "\<not> depth \<le>s 0"
    by (simp_all add: word_sle_eq depth_pred)
qed

text \<open>
  For every depth that is not negative, both sides to move, a worker count
  that starts at least one worker and whose fivefold \<^verbatim>\<open>make\<close> accepts as a
  capacity, and every position from which all generators end,
  \<^verbatim>\<open>MinimaxConcurrent\<close> returns the same node and score under every schedule,
  and the score is the one \<^verbatim>\<open>MinimaxAlphaBetaPrunning\<close> returns.
\<close>

lemma concurrent_same_score:
  assumes "0 \<le>s depth" and "pool L workers" and "generators_end G node maximizing"
  shows "\<exists>x y v. (\<forall>sched. MinimaxConcurrent L G node depth maximizing workers sched = Some (x, v))
            \<and> MinimaxAlphaBetaPrunning G node depth maximizing = Some (y, v)"
proof (cases "depth = 0 \<or> IsTerminal G node")
  case True
  then have "depth \<le>s 0 \<or> IsTerminal G node" by auto
  then have "MinimaxAlphaBetaPrunning G node depth maximizing = Some (Some node, Score G node)"
    unfolding MinimaxAlphaBetaPrunning_def by (rule alphabeta_base)
  moreover have "MinimaxConcurrent L G node depth maximizing workers sched
      = Some (Some node, Score G node)" for sched
    using True by (simp add: MinimaxConcurrent_def)
  ultimately show ?thesis by blast
next
  case False
  then have d: "depth \<noteq> 0" and nt: "\<not> IsTerminal G node" by simp_all
  note d1 = depth_pred_nonneg [OF assms(1) d]
  from generators_end_here [OF assms(3) nt] obtain cs where
    cs: "yields G maximizing (SearchNodeGenerator G node) cs" ..
  have "\<forall>c\<in>set cs. \<exists>v. (\<exists>x. Minimax G c (depth - 1) (\<not> maximizing) = Some (x, v)) \<and>
          (\<exists>y. MinimaxAlphaBetaPrunning G c (depth - 1) (\<not> maximizing) = Some (y, v))"
  proof
    fix c assume "c \<in> set cs"
    then have "generators_end G c (\<not> maximizing)"
      using generators_end_child [OF assms(3) nt] yields_produced [OF cs] by blast
    from search_agree [OF d1(1) this]
    show "\<exists>v. (\<exists>x. Minimax G c (depth - 1) (\<not> maximizing) = Some (x, v)) \<and>
          (\<exists>y. MinimaxAlphaBetaPrunning G c (depth - 1) (\<not> maximizing) = Some (y, v))"
      by blast
  qed
  then obtain val where
    val: "\<forall>c\<in>set cs. (\<exists>x. Minimax G c (depth - 1) (\<not> maximizing) = Some (x, val c)) \<and>
          (\<exists>y. MinimaxAlphaBetaPrunning G c (depth - 1) (\<not> maximizing) = Some (y, val c))"
    using bchoice [of "set cs" "\<lambda>c v. (\<exists>x. Minimax G c (depth - 1) (\<not> maximizing) = Some (x, v)) \<and>
          (\<exists>y. MinimaxAlphaBetaPrunning G c (depth - 1) (\<not> maximizing) = Some (y, v))"]
    by blast
  define best where "best = consumer_best maximizing (results_of 0 cs val)"
  have conc: "MinimaxConcurrent L G node depth maximizing workers sched
      = Some (res_node best, res_score best)" for sched
    using concurrent_expand [OF d nt assms(2) cs, of val sched] val
    by (simp add: minimaxConcurrentConsumer_def best_def Let_def)
  define res where "res = foldl (accept maximizing) (None, MinimaxInitScore maximizing)
              (map (\<lambda>c. (c, val c)) cs)"
  have kids: "\<forall>c\<in>set cs. \<exists>x. Minimax G c (depth - 1) (\<not> maximizing) = Some (x, val c)"
    using val by blast
  have "Minimax G node depth maximizing = Some res"
    unfolding res_def Minimax_expand [OF d nt] using cs kids by (rule Minimax_loop_yields)
  moreover have "snd res = res_score best"
    by (simp add: res_def best_def consumer_score)
  ultimately have mm: "Minimax G node depth maximizing = Some (fst res, res_score best)"
    by (cases res) simp
  from search_agree [OF assms(1,3)] obtain x y v where
    "Minimax G node depth maximizing = Some (x, v)"
    "MinimaxAlphaBetaPrunning G node depth maximizing = Some (y, v)"
    by blast
  with mm have "MinimaxAlphaBetaPrunning G node depth maximizing = Some (y, res_score best)"
    by simp
  with conc show ?thesis by blast
qed

lemma concurrent_same_score_toy:
  "\<exists>x y v. (\<forall>sched. MinimaxConcurrent limits64 toy 5 2 True 2 sched = Some (x, v))
            \<and> MinimaxAlphaBetaPrunning toy 5 2 True = Some (y, v)"
  using concurrent_same_score [of 2 limits64 2 toy 5 True] generators_end_toy pool_two
  by (simp add: word_sle_eq)

section \<open>A nil node with children\<close>

lemma alphabeta_loop_sentinel:
  assumes "yields G m gen cs"
    and "\<forall>c\<in>set cs. \<exists>y. minimaxAlphaBetaPrunningImpl G c (depth - 1) MinInt MaxInt (\<not> m)
            = Some (y, MinimaxInitScore m)"
  shows "minimaxAlphaBetaPrunningImpl_run G (ABLoop gen depth MinInt MaxInt m bn bs)
           = Some (bn, bs)"
  using assms
proof (induction rule: yields.induct)
  case (yields_Nil G gen m)
  then show ?case by (simp add: alphabeta_loop_nil)
next
  case (yields_Cons G gen m c gen' cs)
  from yields_Cons.prems obtain y where
    y: "minimaxAlphaBetaPrunningImpl G c (depth - 1) MinInt MaxInt (\<not> m)
          = Some (y, MinimaxInitScore m)"
    by auto
  have rest: "minimaxAlphaBetaPrunningImpl_run G (ABLoop gen' depth MinInt MaxInt m bn bs)
           = Some (bn, bs)"
    using yields_Cons.IH yields_Cons.prems by simp
  have lt: "\<not> MaxInt \<le>s MinInt"
    by (simp add: word_sle_eq sint_MinInt sint_MaxInt)
  show ?case
  proof (cases m)
    case True
    with y yields_Cons.hyps(1) have
      "generator G gen True = Some (c, gen')"
      "minimaxAlphaBetaPrunningImpl G c (depth - 1) MinInt MaxInt False = Some (y, MinInt)"
      by (simp_all add: MinimaxInitScore_def)
    from alphabeta_loop_child_max [OF this] show ?thesis
      using rest True lt by (simp add: word_sless_alt)
  next
    case False
    with y yields_Cons.hyps(1) have
      "generator G gen False = Some (c, gen')"
      "minimaxAlphaBetaPrunningImpl G c (depth - 1) MinInt MaxInt True = Some (y, MaxInt)"
      by (simp_all add: MinimaxInitScore_def)
    from alphabeta_loop_child_min [OF this] show ?thesis
      using rest False lt by (simp add: word_sless_alt)
  qed
qed

lemma yields_toy: "yields toy m cs cs"
  unfolding toy_def by (rule yields_listGame)

text \<open>
  C9. At a position that is not terminal, with a positive depth, whose
  generator produces at least one child, if the pruned search of every child
  returns the initial score of the side to move (\<^verbatim>\<open>math.MinInt\<close> when
  maximizing, \<^verbatim>\<open>math.MaxInt\<close> when minimizing), then no child is accepted:
  \<^verbatim>\<open>MinimaxAlphaBetaPrunning\<close> and \<^verbatim>\<open>MinimaxConcurrent\<close> return the \<^verbatim>\<open>nil\<close> node
  with that score; \<^verbatim>\<open>MinimaxConcurrent\<close> does so under every schedule, whenever it
  starts at least one worker and \<^verbatim>\<open>make\<close> accepts \<^verbatim>\<open>workers*5\<close> as the capacity
  of both channels.
\<close>

theorem nil_node_despite_children:
  assumes "\<not> IsTerminal G node" and "0 <s depth"
    and "yields G maximizing (SearchNodeGenerator G node) cs" and "cs \<noteq> []"
    and "\<forall>c\<in>set cs. \<exists>y. MinimaxAlphaBetaPrunning G c (depth - 1) (\<not> maximizing)
            = Some (y, MinimaxInitScore maximizing)"
  shows "MinimaxAlphaBetaPrunning G node depth maximizing
           = Some (None, MinimaxInitScore maximizing)
       \<and> (0 <s workers \<and> makeChan (jobsLimit L) (workers * 5) \<noteq> None
            \<and> makeChan (resultsLimit L) (workers * 5) \<noteq> None
          \<longrightarrow> MinimaxConcurrent L G node depth maximizing workers sched
                = Some (None, MinimaxInitScore maximizing))"
proof -
  from assms(2) have d: "depth \<noteq> 0" "\<not> depth \<le>s 0"
    by (auto simp: word_sless_alt word_sle_eq)
  have "MinimaxAlphaBetaPrunning G node depth maximizing
      = Some (None, MinimaxInitScore maximizing)"
    using alphabeta_loop_sentinel [OF assms(3), of depth None "MinimaxInitScore maximizing"]
      assms(1,5) d
    by (simp add: MinimaxAlphaBetaPrunning_def alphabeta_expand)
  moreover have "consumer_best maximizing (results_of 0 cs (\<lambda>c. MinimaxInitScore maximizing))
      = WorkerResult (- 1) None (MinimaxInitScore maximizing)"
  proof (rule consumer_best_sentinel)
    show "\<forall>r\<in>set (results_of 0 cs (\<lambda>c. MinimaxInitScore maximizing)). 0 \<le> res_jobId r"
      using results_ids by blast
    have "res_score r = MinimaxInitScore maximizing"
      if "r \<in> set (results_of 0 cs (\<lambda>c. MinimaxInitScore maximizing))" for r
    proof -
      from that have "res_score r \<in> set (map res_score
          (results_of 0 cs (\<lambda>c. MinimaxInitScore maximizing)))"
        by simp
      then show ?thesis by (auto simp: results_scores)
    qed
    then show "\<not> (\<exists>r\<in>set (results_of 0 cs (\<lambda>c. MinimaxInitScore maximizing)).
        better maximizing (res_score r) (MinimaxInitScore maximizing))"
      using not_better_sentinel by metis
  qed
  then have "MinimaxConcurrent L G node depth maximizing workers sched
      = Some (None, MinimaxInitScore maximizing)" if "pool L workers"
    using concurrent_expand [OF d(1) assms(1) that assms(3),
        of "\<lambda>c. MinimaxInitScore maximizing" sched] assms(5)
    by (simp add: minimaxConcurrentConsumer_def)
  ultimately show ?thesis by (simp add: pool_def)
qed

theorem nil_node_despite_children_witness:
  "MinimaxAlphaBetaPrunning toy 3 1 True = Some (None, MinInt)
   \<and> MinimaxConcurrent limits64 toy 3 1 True 2 [] = Some (None, MinInt)"
  using nil_node_despite_children [of toy 3 1 True "[4]" 2 limits64 "[]"]
    yields_toy [of True "[4]"]
  by (simp add: MinimaxInitScore_def MinimaxAlphaBetaPrunning_def alphabeta_base
        word_sless_alt word_sle_eq makeChan_def limits64_def)

section \<open>One step of the pruned loop\<close>

text \<open>
  C5. One turn of the loop of \<^verbatim>\<open>minimaxAlphaBetaPrunningImpl\<close>: the child is
  accepted, and \<open>alpha\<close> raised to its score, exactly when the score is strictly
  greater than \<open>alpha\<close> (when minimizing: \<open>beta\<close> lowered when the score is
  strictly less than \<open>beta\<close>); if then \<open>alpha \<ge> beta\<close>, the loop returns at
  once, whatever the generator has left.
\<close>

theorem alphabeta_step:
  assumes "generator G gen maximizing = Some (childNode, gen')"
    and "minimaxAlphaBetaPrunningImpl G childNode (depth - 1) alpha beta (\<not> maximizing)
           = Some (x, newScore)"
  shows "minimaxAlphaBetaPrunningImpl_run G
           (ABLoop gen depth alpha beta maximizing bestNode bestScore) =
         (let accepted = (if maximizing then alpha <s newScore else newScore <s beta);
              alpha' = (if maximizing \<and> accepted then newScore else alpha);
              beta' = (if \<not> maximizing \<and> accepted then newScore else beta);
              bestNode' = (if accepted then Some childNode else bestNode);
              bestScore' = (if accepted then newScore else bestScore)
          in if beta' \<le>s alpha' then Some (bestNode', bestScore')
             else minimaxAlphaBetaPrunningImpl_run G
                    (ABLoop gen' depth alpha' beta' maximizing bestNode' bestScore'))"
proof (cases maximizing)
  case True
  with assms show ?thesis
    using alphabeta_loop_child_max [of G gen childNode gen' depth alpha beta x newScore
        bestNode bestScore]
    by (simp add: Let_def)
next
  case False
  with assms show ?thesis
    using alphabeta_loop_child_min [of G gen childNode gen' depth alpha beta x newScore
        bestNode bestScore]
    by (simp add: Let_def)
qed

theorem alphabeta_step_witness:
  "minimaxAlphaBetaPrunningImpl_run toy (ABLoop [1, 6, 7] 1 MinInt 4 True None MinInt)
     = Some (Some 1, 5)"
  using alphabeta_step [of toy "[1, 6, 7]" True 1 "[6, 7]" 1 MinInt 4 "Some 1" 5 None MinInt]
  by (simp add: alphabeta_base word_sle_eq word_sless_alt sint_MinInt)

section \<open>The last optimal child\<close>

lemma no_worse_sentinel: "no_worse m x (MinimaxInitScore m)"
  using MinInt_least [of x] MaxInt_greatest [of x]
  by (simp add: no_worse_def MinimaxInitScore_def word_sle_eq)

lemma accept_no_worse:
  "accept m best child = (if no_worse m (snd child) (snd best) then (Some (fst child), snd child) else best)"
  by (simp add: accept_def no_worse_def)

lemma no_worse_refl: "no_worse m x x"
  by (simp add: no_worse_def)

lemma no_worse_trans: "no_worse m x y \<Longrightarrow> no_worse m y z \<Longrightarrow> no_worse m x z"
  by (auto simp: no_worse_def word_sle_eq split: if_splits)

lemma no_worse_linear: "\<not> no_worse m x y \<Longrightarrow> no_worse m y x \<and> x \<noteq> y"
  by (auto simp: no_worse_def word_sle_eq split: if_splits)

lemma accept_last_optimal:
  "cs \<noteq> [] \<Longrightarrow>
   \<exists>i<length cs.
      foldl (accept m) (None, MinimaxInitScore m) (map (\<lambda>c. (c, val c)) cs)
        = (Some (cs ! i), val (cs ! i)) \<and>
      (\<forall>j<length cs. no_worse m (val (cs ! i)) (val (cs ! j))) \<and>
      (\<forall>j<length cs. i < j \<longrightarrow> val (cs ! j) \<noteq> val (cs ! i))"
proof (induction cs rule: rev_induct)
  case Nil
  then show ?case by simp
next
  case (snoc c cs)
  define best where "best = foldl (accept m) (None, MinimaxInitScore m) (map (\<lambda>c. (c, val c)) cs)"
  have fold: "foldl (accept m) (None, MinimaxInitScore m) (map (\<lambda>c. (c, val c)) (cs @ [c]))
      = (if no_worse m (val c) (snd best) then (Some c, val c) else best)"
    by (simp add: best_def accept_no_worse)
  have bound: "\<forall>j<length cs. no_worse m (snd best) (val (cs ! j))"
  proof (cases "cs = []")
    case True then show ?thesis by simp
  next
    case False
    from snoc.IH [OF this] show ?thesis by (auto simp: best_def)
  qed
  show ?case
  proof (cases "no_worse m (val c) (snd best)")
    case True
    have "\<forall>j<length (cs @ [c]). no_worse m (val c) (val ((cs @ [c]) ! j))"
      using bound True no_worse_trans [of m "val c" "snd best"] no_worse_refl [of m "val c"]
      by (auto simp: nth_append)
    then show ?thesis
      using True fold by (intro exI [of _ "length cs"]) simp
  next
    case False
    then have cs: "cs \<noteq> []"
      using no_worse_sentinel [of m "val c"] by (auto simp: best_def)
    from snoc.IH [OF cs] obtain i where i: "i < length cs"
      and b: "best = (Some (cs ! i), val (cs ! i))"
      and opt: "\<forall>j<length cs. no_worse m (val (cs ! i)) (val (cs ! j))"
      and last: "\<forall>j<length cs. i < j \<longrightarrow> val (cs ! j) \<noteq> val (cs ! i)"
      by (auto simp: best_def)
    from False b have c: "no_worse m (val (cs ! i)) (val c)" "val c \<noteq> val (cs ! i)"
      using no_worse_linear [of m "val c" "val (cs ! i)"] by simp_all
    have "\<forall>j<length (cs @ [c]). no_worse m (val (cs ! i)) (val ((cs @ [c]) ! j))"
      using opt c(1) by (auto simp: nth_append less_Suc_eq)
    moreover have "\<forall>j<length (cs @ [c]). i < j \<longrightarrow> val ((cs @ [c]) ! j) \<noteq> val (cs ! i)"
      using last c(2) by (auto simp: nth_append less_Suc_eq)
    ultimately show ?thesis
      using False fold b i by (intro exI [of _ i]) (simp add: nth_append)
  qed
qed

text \<open>
  C6. At a position that is not terminal, with a depth other than 0 and at
  least one child, \<^verbatim>\<open>Minimax\<close> folds its acceptance rule (accept a child when
  its score is greater than or equal to the best so far when maximizing, less
  than or equal when minimizing) over the children, and so returns the child
  at the last index whose score is optimal.
\<close>

theorem minimax_last_optimal:
  assumes "\<not> IsTerminal G node" and "depth \<noteq> 0"
    and "yields G maximizing (SearchNodeGenerator G node) cs" and "cs \<noteq> []"
    and "\<forall>c\<in>set cs. \<exists>x. Minimax G c (depth - 1) (\<not> maximizing) = Some (x, val c)"
  shows "Minimax G node depth maximizing =
           Some (foldl (accept maximizing) (None, MinimaxInitScore maximizing)
                   (map (\<lambda>c. (c, val c)) cs))
       \<and> (\<exists>i<length cs.
             Minimax G node depth maximizing = Some (Some (cs ! i), val (cs ! i)) \<and>
             (\<forall>j<length cs. if maximizing then val (cs ! j) \<le>s val (cs ! i)
                             else val (cs ! i) \<le>s val (cs ! j)) \<and>
             (\<forall>j<length cs. i < j \<longrightarrow> val (cs ! j) \<noteq> val (cs ! i)))"
proof -
  have mm: "Minimax G node depth maximizing =
           Some (foldl (accept maximizing) (None, MinimaxInitScore maximizing)
                   (map (\<lambda>c. (c, val c)) cs))"
    unfolding Minimax_expand [OF assms(2,1)] using assms(3,5) by (rule Minimax_loop_yields)
  from accept_last_optimal [OF assms(4), of maximizing val] obtain i where
    "i < length cs"
    "foldl (accept maximizing) (None, MinimaxInitScore maximizing) (map (\<lambda>c. (c, val c)) cs)
        = (Some (cs ! i), val (cs ! i))"
    "\<forall>j<length cs. no_worse maximizing (val (cs ! i)) (val (cs ! j))"
    "\<forall>j<length cs. i < j \<longrightarrow> val (cs ! j) \<noteq> val (cs ! i)"
    by blast
  then have "\<exists>i<length cs.
             Minimax G node depth maximizing = Some (Some (cs ! i), val (cs ! i)) \<and>
             (\<forall>j<length cs. if maximizing then val (cs ! j) \<le>s val (cs ! i)
                             else val (cs ! i) \<le>s val (cs ! j)) \<and>
             (\<forall>j<length cs. i < j \<longrightarrow> val (cs ! j) \<noteq> val (cs ! i))"
    using mm by (intro exI [of _ i]) (simp add: no_worse_def)
  with mm show ?thesis by blast
qed

theorem minimax_last_optimal_witness:
  "Minimax toy 5 1 True = Some (Some 6, 5)"
  using minimax_last_optimal [of toy 5 1 True "[1, 6, 7]"
      "\<lambda>s. if s = 1 \<or> s = 6 then 5 else if s = 7 then 3 else 0"]
    yields_toy [of True "[1, 6, 7]"]
  by (simp add: Minimax_base accept_def MinimaxInitScore_def MinInt_def word_sle_eq)

section \<open>The pruned search as a total function\<close>

lemma ab_loop_refine:
  assumes "yields G m gen cs"
    and "\<forall>c\<in>set cs. \<forall>a b. \<exists>y r.
           minimaxAlphaBetaPrunningImpl G c (depth - 1) a b (\<not> m) = Some (y, r) \<and>
           sint r = ab_val G kids n c (sint a) (sint b) (\<not> m)"
  shows "\<exists>y r. minimaxAlphaBetaPrunningImpl_run G (ABLoop gen depth a b m bn bs) = Some (y, r) \<and>
           sint r = ab_loop G kids n cs (sint a) (sint b) m (sint bs)"
  using assms
proof (induction arbitrary: a b bn bs rule: yields.induct)
  case (yields_Nil G gen m)
  then show ?case by (simp add: alphabeta_loop_nil)
next
  case (yields_Cons G gen m c gen' cs)
  from yields_Cons.prems obtain y rc where
    rc: "minimaxAlphaBetaPrunningImpl G c (depth - 1) a b (\<not> m) = Some (y, rc)"
    and v: "sint rc = ab_val G kids n c (sint a) (sint b) (\<not> m)"
    by (meson list.set_intros(1))
  have rest: "\<forall>c\<in>set cs. \<forall>a b. \<exists>y r.
           minimaxAlphaBetaPrunningImpl G c (depth - 1) a b (\<not> m) = Some (y, r) \<and>
           sint r = ab_val G kids n c (sint a) (sint b) (\<not> m)"
    using yields_Cons.prems by simp
  note IH = yields_Cons.IH [OF rest]
  show ?case
  proof (cases m)
    case True
    with rc yields_Cons.hyps(1) have
      "generator G gen True = Some (c, gen')"
      "minimaxAlphaBetaPrunningImpl G c (depth - 1) a b False = Some (y, rc)"
      by simp_all
    note step = alphabeta_loop_child_max [OF this]
    show ?thesis
      using IH [of rc b "Some c" rc] IH [of a b bn bs] True v
      by (auto simp: step word_sless_alt word_sle_eq Let_def)
  next
    case False
    with rc yields_Cons.hyps(1) have
      "generator G gen False = Some (c, gen')"
      "minimaxAlphaBetaPrunningImpl G c (depth - 1) a b True = Some (y, rc)"
      by simp_all
    note step = alphabeta_loop_child_min [OF this]
    show ?thesis
      using IH [of a rc "Some c" rc] IH [of a b bn bs] False v
      by (auto simp: step word_sless_alt word_sle_eq Let_def)
  qed
qed

lemma ab_refine:
  assumes "\<forall>s m. yields G m (SearchNodeGenerator G s) (kids s m)"
  shows "sint depth = int n \<Longrightarrow>
     \<exists>y r. minimaxAlphaBetaPrunningImpl G s depth a b m = Some (y, r) \<and>
            sint r = ab_val G kids n s (sint a) (sint b) m"
proof (induction n arbitrary: s depth a b m)
  case 0
  then have "depth = 0" by (simp add: sint_zero_iff)
  then show ?case by (simp add: alphabeta_base)
next
  case (Suc n)
  show ?case
  proof (cases "IsTerminal G s")
    case True
    then show ?thesis by (simp add: alphabeta_base)
  next
    case False
    from Suc.prems have pos: "0 < sint depth" by simp
    then have d: "\<not> depth \<le>s 0" "sint (depth - 1) = int n"
      using Suc.prems by (auto simp: word_sle_eq depth_pred)
    have cs: "yields G m (SearchNodeGenerator G s) (kids s m)"
      using assms by blast
    have "\<forall>c\<in>set (kids s m). \<forall>a b. \<exists>y r.
           minimaxAlphaBetaPrunningImpl G c (depth - 1) a b (\<not> m) = Some (y, r) \<and>
           sint r = ab_val G kids n c (sint a) (sint b) (\<not> m)"
      using Suc.IH [OF d(2)] by blast
    from ab_loop_refine [OF cs this, of a b None "MinimaxInitScore m"]
    show ?thesis
      using False d by (simp add: alphabeta_expand)
  qed
qed

lemma yields_all_generators_end:
  assumes "\<forall>s m. yields G m (SearchNodeGenerator G s) (kids s m)"
  shows "generators_end G s m"
  unfolding generators_end_def using assms by blast

lemma sint_of_int_small:
  "- (2 ^ 63) \<le> k \<Longrightarrow> k < 2 ^ 63 \<Longrightarrow> sint (word_of_int k :: go_int) = k"
  by (simp add: sint_sbintrunc' signed_take_bit_int_eq_self)

lemma window_verdict:
  assumes K: "\<forall>s m. yields G m (SearchNodeGenerator G s) (kids s m)"
    and d: "sint depth = int n"
    and ab: "a < b" "- (2 ^ 63) \<le> a" "b < 2 ^ 63"
    and r: "ab_val G kids n s a b m = r"
  shows "minimax_in G s depth m
           (if r \<le> a then - (2 ^ 63) else if b \<le> r then b else r)
           (if r \<le> a then a else if b \<le> r then 2 ^ 63 - 1 else r)"
proof -
  define wa :: go_int where "wa = word_of_int a"
  define wb :: go_int where "wb = word_of_int b"
  have wa: "sint wa = a" and wb: "sint wb = b"
    using ab by (simp_all add: wa_def wb_def sint_of_int_small)
  have lt: "wa <s wb"
    using ab(1) by (simp add: word_sless_alt wa wb)
  from search_window [OF d yields_all_generators_end [OF K], of s m] obtain x v where
    mm: "Minimax G s depth m = Some (x, v)"
    and w: "\<forall>a b. a <s b \<longrightarrow>
          (\<exists>y r. minimaxAlphaBetaPrunningImpl G s depth a b m = Some (y, r) \<and> within a b v r)"
    by blast
  from w lt obtain y r' where
    r': "minimaxAlphaBetaPrunningImpl G s depth wa wb m = Some (y, r')"
    and win: "within wa wb v r'"
    by blast
  from ab_refine [OF K d, of s wa wb m] r' have "sint r' = r"
    by (simp add: wa wb r)
  have range: "- (2 ^ 63) \<le> sint v" "sint v \<le> 2 ^ 63 - 1"
    using MinInt_least [of v] MaxInt_greatest [of v] by (simp_all add: sint_MinInt sint_MaxInt)
  have "(if r \<le> a then - (2 ^ 63) else if b \<le> r then b else r) \<le> sint v \<and>
        sint v \<le> (if r \<le> a then a else if b \<le> r then 2 ^ 63 - 1 else r)"
    using win \<open>sint r' = r\<close> ab(1) range
    by (auto simp: within_def word_sle_eq word_sless_alt wa wb)
  with mm show ?thesis
    unfolding minimax_in_def by blast
qed

lemma accept_keeps_bound:
  "\<forall>x\<in>set xs. no_worse m w (snd x) \<Longrightarrow> no_worse m w (snd best) \<Longrightarrow>
     no_worse m w (snd (foldl (accept m) best xs))"
  by (induction xs arbitrary: best) (auto simp: accept_def)

lemma accept_rejects_worse:
  "\<forall>x\<in>set xs. \<not> no_worse m (snd x) w \<Longrightarrow> foldl (accept m) (bn, w) xs = (bn, w)"
  by (induction xs) (auto simp: accept_no_worse)

lemma minimax_pick:
  assumes nt: "\<not> IsTerminal G s" and d: "depth \<noteq> 0"
    and cs: "yields G m (SearchNodeGenerator G s) (pre @ c # post)"
    and exact: "minimax_in G c (depth - 1) (\<not> m) (sint w) (sint w)"
    and pre: "\<forall>c'\<in>set pre. minimax_in G c' (depth - 1) (\<not> m)
                (if m then - (2 ^ 63) else sint w) (if m then sint w else 2 ^ 63 - 1)"
    and post: "\<forall>c'\<in>set post. minimax_in G c' (depth - 1) (\<not> m)
                (if m then - (2 ^ 63) else sint w + 1) (if m then sint w - 1 else 2 ^ 63 - 1)"
  shows "Minimax G s depth m = Some (Some c, w)"
proof -
  define val where "val c' = snd (the (Minimax G c' (depth - 1) (\<not> m)))" for c'
  have val: "\<exists>x. Minimax G c' (depth - 1) (\<not> m) = Some (x, val c')"
    if "minimax_in G c' (depth - 1) (\<not> m) lo hi" for c' lo hi
    using that by (auto simp: minimax_in_def val_def)
  have bounds: "lo \<le> sint (val c') \<and> sint (val c') \<le> hi"
    if "minimax_in G c' (depth - 1) (\<not> m) lo hi" for c' lo hi
    using that by (auto simp: minimax_in_def val_def)
  have all: "\<forall>c'\<in>set (pre @ c # post). \<exists>x. Minimax G c' (depth - 1) (\<not> m) = Some (x, val c')"
    using val exact pre post by auto
  have mm: "Minimax G s depth m =
      Some (foldl (accept m) (None, MinimaxInitScore m) (map (\<lambda>c. (c, val c)) (pre @ c # post)))"
    unfolding Minimax_expand [OF d nt] using cs all by (rule Minimax_loop_yields)
  have "sint (val c) = sint w"
    using bounds [OF exact] by simp
  then have vc: "val c = w"
    by (rule signed_word_eqI)
  define b1 where "b1 = foldl (accept m) (None, MinimaxInitScore m) (map (\<lambda>c. (c, val c)) pre)"
  have "no_worse m w (snd b1)"
    unfolding b1_def
  proof (rule accept_keeps_bound)
    show "\<forall>x\<in>set (map (\<lambda>c. (c, val c)) pre). no_worse m w (snd x)"
      using pre bounds by (fastforce simp: no_worse_def word_sle_eq split: if_splits)
    show "no_worse m w (snd (None, MinimaxInitScore m))"
      by (simp add: no_worse_sentinel)
  qed
  then have b2: "accept m b1 (c, val c) = (Some c, w)"
    by (simp add: accept_no_worse vc)
  have "\<forall>x\<in>set (map (\<lambda>c. (c, val c)) post). \<not> no_worse m (snd x) w"
    using post bounds by (fastforce simp: no_worse_def word_sle_eq split: if_splits)
  then have "foldl (accept m) (Some c, w) (map (\<lambda>c. (c, val c)) post) = (Some c, w)"
    by (rule accept_rejects_worse)
  then show ?thesis
    using b2 by (simp add: mm b1_def)
qed

section \<open>Tic-tac-toe: the game on boards written square by square\<close>

lemma cell_val_eq [simp]: "cell_val x = cell_val y \<longleftrightarrow> x = y"
  by (cases x; cases y) (simp_all add: cross_def empty_sq_def circle_def)

lemma cell_val_empty [simp]: "cell_val x = empty_sq \<longleftrightarrow> x = Blank"
  using cell_val_eq [of x Blank] by simp

lemma isInRow_cells [simp]: "isInRow (cell_val a) (cell_val b) (cell_val c) = full a b c"
  by (simp add: isInRow_def full_def)

lemma anyFullRow_mkB:
  "anyFullRow (mkB a b c d e f g h i) =
     (if full a b c then (True, cell_val a) else if full a d g then (True, cell_val a)
      else if full d e f then (True, cell_val d) else if full b e h then (True, cell_val b)
      else if full g h i then (True, cell_val g) else if full c f i then (True, cell_val c)
      else if full a e i \<or> full g e c then (True, cell_val e) else (False, empty_sq))"
  by (simp add: anyFullRow_def mkB_def eval_nat_numeral)

lemma count_step: "(if P then num + 1 else num) = num + (if P then 1 else (0 :: go_int))"
  by simp

lemma bl_word: "(if x = Blank then 1 else (0 :: go_int)) = of_nat (bl x)"
  by (simp add: bl_def)

lemma numberEmptySquares_mkB:
  "numberEmptySquares (mkB a b c d e f g h i) = of_nat (blanks9 a b c d e f g h i)"
  by (simp add: numberEmptySquares_def mkB_def eval_nat_numeral upt_rec count_step bl_word
        blanks9_def)

lemma bl_le: "bl x \<le> 1"
  by (simp add: bl_def)

lemma blanks9_le: "blanks9 a b c d e f g h i \<le> 9"
  unfolding blanks9_def
  using bl_le [of a] bl_le [of b] bl_le [of c] bl_le [of d] bl_le [of e] bl_le [of f]
    bl_le [of g] bl_le [of h] bl_le [of i]
  by linarith

lemma cell_val_int: "cell_val w = word_of_int (cell_int w)"
  by (cases w) (simp_all add: cross_def empty_sq_def circle_def)

lemma cell_int_bound: "- 1 \<le> cell_int w \<and> cell_int w \<le> 1"
  by (cases w) simp_all

lemma sint_cell_times:
  assumes "k \<le> 9"
  shows "sint (cell_val w * (of_nat k + 1)) = cell_int w * (int k + 1)"
proof -
  have eq: "cell_val w * (of_nat k + 1) = (word_of_int (cell_int w * (int k + 1)) :: go_int)"
    by (simp add: cell_val_int)
  have "- 10 \<le> cell_int w * (int k + 1) \<and> cell_int w * (int k + 1) \<le> 10"
    using assms by (cases w) simp_all
  then show ?thesis
    unfolding eq by (intro sint_of_int_small) simp_all
qed

lemma small_word_zero:
  assumes "k \<le> 9"
  shows "(of_nat k :: go_int) = 0 \<longleftrightarrow> k = 0"
proof -
  have "sint (of_nat k :: go_int) = int k"
    using sint_of_int_small [of "int k"] assms by simp
  then show ?thesis
    using sint_zero_iff [of "of_nat k"] by simp
qed

lemma tttIsTerminal_mkB:
  "tttIsTerminal (mkB a b c d e f g h i) = term9 a b c d e f g h i"
  by (simp add: tttIsTerminal_def anyFullRow_mkB numberEmptySquares_mkB term9_def
        small_word_zero [OF blanks9_le])

lemma tttScore_mkB:
  "sint (tttScore (mkB a b c d e f g h i)) = score9 a b c d e f g h i"
  using sint_cell_times [OF blanks9_le, of Blank a b c d e f g h i]
  by (simp add: tttScore_def anyFullRow_mkB numberEmptySquares_mkB score9_def
        sint_cell_times [OF blanks9_le] empty_sq_def)

lemma symbol_sym: "symbol m = cell_val (sym m)"
  by (simp add: symbol_def sym_def)

lemma tttKids_mkB:
  "tttKids (mkB a b c d e f g h i) m = kids9 a b c d e f g h i m"
  by (simp add: tttKids_def mkB_def kids9_def place_def symbol_sym tttChildren.simps)

lemma yields_same:
  "generator G g m = generator G g' m \<Longrightarrow> yields G m g' cs \<Longrightarrow> yields G m g cs"
  by (erule yields.cases) (auto intro: yields.intros)

lemma ttt_generator [simp]: "generator ttt = tttGenerator"
  by (simp add: ttt_def)

lemma yields_ttt: "yields ttt m g (tttChildren g m)"
proof (induction g m rule: tttChildren.induct)
  case (1 g m)
  show ?case
  proof (cases "cur_y g < 3")
    case False
    then have "tttGenerator g m = None" "tttChildren g m = []"
      by (simp_all add: tttGenerator.simps [of g] tttChildren.simps [of g])
    then show ?thesis by (simp add: yields_Nil)
  next
    case y: True
    show ?thesis
    proof (cases "cur_x g < 3")
      case False
      with y have "tttGenerator g m = tttGenerator (g \<lparr> cur_x := 0, cur_y := cur_y g + 1 \<rparr>) m"
        "tttChildren g m = tttChildren (g \<lparr> cur_x := 0, cur_y := cur_y g + 1 \<rparr>) m"
        by (simp_all add: tttGenerator.simps [of g] tttChildren.simps [of g])
      with "1.IH"(2) [OF y False] show ?thesis
        by (auto intro: yields_same)
    next
      case x: True
      show ?thesis
      proof (cases "board (cur_node g) ! cur_y g ! cur_x g = empty_sq")
        case True
        with x y have "tttGenerator g m =
            Some (place (cur_node g) (cur_y g) (cur_x g) (symbol m), g \<lparr> cur_x := cur_x g + 1 \<rparr>)"
          "tttChildren g m = place (cur_node g) (cur_y g) (cur_x g) (symbol m)
             # tttChildren (g \<lparr> cur_x := cur_x g + 1 \<rparr>) m"
          by (simp_all add: tttGenerator.simps [of g] tttChildren.simps [of g])
        with "1.IH"(1) [OF y x] show ?thesis
          by (auto intro: yields_Cons)
      next
        case False
        with x y have "tttGenerator g m = tttGenerator (g \<lparr> cur_x := cur_x g + 1 \<rparr>) m"
          "tttChildren g m = tttChildren (g \<lparr> cur_x := cur_x g + 1 \<rparr>) m"
          by (simp_all add: tttGenerator.simps [of g] tttChildren.simps [of g])
        with "1.IH"(1) [OF y x] show ?thesis
          by (auto intro: yields_same)
      qed
    qed
  qed
qed

lemma yields_tttKids: "\<forall>s m. yields ttt m (SearchNodeGenerator ttt s) (tttKids s m)"
  by (simp add: ttt_def tttKids_def yields_ttt [unfolded ttt_def])

lemma generators_end_ttt: "generators_end ttt node m"
  using yields_tttKids by (rule yields_all_generators_end)

lemma ttt_sel [simp]: "Score ttt = tttScore" "IsTerminal ttt = tttIsTerminal"
  by (simp_all add: ttt_def)

lemma tttAB_0: "tttAB 0 (mkB a b c d e f g h i) al be m = score9 a b c d e f g h i"
  by (simp add: tttAB_def tttScore_mkB)

lemma tttAB_Suc:
  "tttAB (Suc n) (mkB a b c d e f g h i) al be m =
     (if term9 a b c d e f g h i then score9 a b c d e f g h i
      else tttABl n (kids9 a b c d e f g h i m) al be m
             (if m then - 9223372036854775808 else 9223372036854775807))"
  by (simp add: tttAB_def tttABl_def tttScore_mkB tttIsTerminal_mkB tttKids_mkB
        MinimaxInitScore_def sint_MinInt sint_MaxInt)

lemma tttABl_Nil: "tttABl n [] al be m bs = bs"
  by (simp add: tttABl_def)

lemma tttABl_Cons:
  "tttABl n (c # cs) al be m bs =
     (let ns = tttAB n c al be (\<not> m) in
      if m then (if al < ns then (if be \<le> ns then ns else tttABl n cs ns be m ns)
                 else (if be \<le> al then bs else tttABl n cs al be m bs))
      else (if ns < be then (if ns \<le> al then ns else tttABl n cs al ns m ns)
            else (if be \<le> al then bs else tttABl n cs al be m bs)))"
  unfolding tttABl_def tttAB_def by (rule ab_loop.simps)

lemmas ttt_eval = tttAB_0 tttAB_Suc tttABl_Nil tttABl_Cons
  term9_def score9_def kids9_def full_def blanks9_def bl_def sym_def

lemma ttt_window:
  assumes "a < b" and "- (2 ^ 63) \<le> a" and "b < 2 ^ 63"
    and "tttAB (Suc (Suc (Suc (Suc (Suc (Suc (Suc (Suc 0)))))))) s a b m = r"
  shows "minimax_in ttt s 8 m
           (if r \<le> a then - (2 ^ 63) else if b \<le> r then b else r)
           (if r \<le> a then a else if b \<le> r then 2 ^ 63 - 1 else r)"
proof -
  have d: "sint (8 :: go_int) = int (Suc (Suc (Suc (Suc (Suc (Suc (Suc (Suc 0))))))))"
    by simp
  from assms(4) have
    r: "ab_val ttt tttKids (Suc (Suc (Suc (Suc (Suc (Suc (Suc (Suc 0)))))))) s a b m = r"
    unfolding tttAB_def .
  show ?thesis
    by (rule window_verdict [OF yields_tttKids d assms(1-3) r])
qed

lemma ttt_ge:
  assumes "b \<le> tttAB (Suc (Suc (Suc (Suc (Suc (Suc (Suc (Suc 0)))))))) s (b - 1) b m
           \<and> - 100 \<le> b \<and> b \<le> 100"
  shows "minimax_in ttt s 8 m b 9223372036854775807"
  using ttt_window [of "b - 1" b s m, OF _ _ _ refl] assms by (simp split: if_splits)

lemma ttt_le:
  assumes "tttAB (Suc (Suc (Suc (Suc (Suc (Suc (Suc (Suc 0)))))))) s a (a + 1) m \<le> a
           \<and> - 100 \<le> a \<and> a \<le> 100"
  shows "minimax_in ttt s 8 m (- 9223372036854775808) a"
  using ttt_window [of a "a + 1" s m, OF _ _ _ refl] assms by (simp split: if_splits)

lemma ttt_eq:
  assumes "tttAB (Suc (Suc (Suc (Suc (Suc (Suc (Suc (Suc 0)))))))) s (v - 1) (v + 1) m = v
           \<and> - 100 \<le> v \<and> v \<le> 100"
  shows "minimax_in ttt s 8 m v v"
  using ttt_window [of "v - 1" "v + 1" s m, OF _ _ _ refl] assms by (simp split: if_splits)

lemma ttt_pick:
  assumes "\<not> term9 a b c d e f g h i"
    and "k < length (kids9 a b c d e f g h i m)"
    and "minimax_in ttt (kids9 a b c d e f g h i m ! k) 8 (\<not> m) (sint w) (sint w)"
    and "\<forall>c'\<in>set (take k (kids9 a b c d e f g h i m)). minimax_in ttt c' 8 (\<not> m)
           (if m then - (2 ^ 63) else sint w) (if m then sint w else 2 ^ 63 - 1)"
    and "\<forall>c'\<in>set (drop (Suc k) (kids9 a b c d e f g h i m)). minimax_in ttt c' 8 (\<not> m)
           (if m then - (2 ^ 63) else sint w + 1) (if m then sint w - 1 else 2 ^ 63 - 1)"
  shows "Minimax ttt (mkB a b c d e f g h i) 9 m = Some (Some (kids9 a b c d e f g h i m ! k), w)"
proof (rule minimax_pick [where pre = "take k (kids9 a b c d e f g h i m)"
      and post = "drop (Suc k) (kids9 a b c d e f g h i m)"])
  have e: "(9 :: go_int) - 1 = 8" by simp
  show "\<not> IsTerminal ttt (mkB a b c d e f g h i)"
    using assms(1) by (simp add: tttIsTerminal_mkB)
  show "(9 :: go_int) \<noteq> 0" by simp
  have "yields ttt m (SearchNodeGenerator ttt (mkB a b c d e f g h i)) (kids9 a b c d e f g h i m)"
    using yields_tttKids by (simp add: tttKids_mkB [symmetric])
  then show "yields ttt m (SearchNodeGenerator ttt (mkB a b c d e f g h i))
      (take k (kids9 a b c d e f g h i m) @ kids9 a b c d e f g h i m ! k
         # drop (Suc k) (kids9 a b c d e f g h i m))"
    using id_take_nth_drop [OF assms(2)] by simp
  show "minimax_in ttt (kids9 a b c d e f g h i m ! k) (9 - 1) (\<not> m) (sint w) (sint w)"
    unfolding e by (rule assms(3))
  show "\<forall>c'\<in>set (take k (kids9 a b c d e f g h i m)). minimax_in ttt c' (9 - 1) (\<not> m)
           (if m then - (2 ^ 63) else sint w) (if m then sint w else 2 ^ 63 - 1)"
    unfolding e by (rule assms(4))
  show "\<forall>c'\<in>set (drop (Suc k) (kids9 a b c d e f g h i m)). minimax_in ttt c' (9 - 1) (\<not> m)
           (if m then - (2 ^ 63) else sint w + 1) (if m then sint w - 1 else 2 ^ 63 - 1)"
    unfolding e by (rule assms(5))
qed

lemmas ttt_pick_simps = kids9_def term9_def full_def blanks9_def bl_def sym_def

section \<open>Tic-tac-toe: the moves of the two test games\<close>

lemma ply0_child0:
  "minimax_in ttt (mkB Cross Blank Blank Blank Blank Blank Blank Blank Blank) 8 True 0 9223372036854775807"
  by (rule ttt_ge) (simp add: ttt_eval)

lemma ply0_child1:
  "minimax_in ttt (mkB Blank Cross Blank Blank Blank Blank Blank Blank Blank) 8 True 0 9223372036854775807"
  by (rule ttt_ge) (simp add: ttt_eval)

lemma ply0_child2:
  "minimax_in ttt (mkB Blank Blank Cross Blank Blank Blank Blank Blank Blank) 8 True 0 9223372036854775807"
  by (rule ttt_ge) (simp add: ttt_eval)

lemma ply0_child3:
  "minimax_in ttt (mkB Blank Blank Blank Cross Blank Blank Blank Blank Blank) 8 True 0 9223372036854775807"
  by (rule ttt_ge) (simp add: ttt_eval)

lemma ply0_child4:
  "minimax_in ttt (mkB Blank Blank Blank Blank Cross Blank Blank Blank Blank) 8 True 0 9223372036854775807"
  by (rule ttt_ge) (simp add: ttt_eval)

lemma ply0_child5:
  "minimax_in ttt (mkB Blank Blank Blank Blank Blank Cross Blank Blank Blank) 8 True 0 9223372036854775807"
  by (rule ttt_ge) (simp add: ttt_eval)

lemma ply0_child6:
  "minimax_in ttt (mkB Blank Blank Blank Blank Blank Blank Cross Blank Blank) 8 True 0 9223372036854775807"
  by (rule ttt_ge) (simp add: ttt_eval)

lemma ply0_child7:
  "minimax_in ttt (mkB Blank Blank Blank Blank Blank Blank Blank Cross Blank) 8 True 0 9223372036854775807"
  by (rule ttt_ge) (simp add: ttt_eval)

lemma ply0_child8:
  "minimax_in ttt (mkB Blank Blank Blank Blank Blank Blank Blank Blank Cross) 8 True 0 0"
  by (rule ttt_eq) (simp add: ttt_eval)

lemma ply0_move:
  "Minimax ttt (mkB Blank Blank Blank Blank Blank Blank Blank Blank Blank) 9 False =
     Some (Some (mkB Blank Blank Blank Blank Blank Blank Blank Blank Cross), 0)"
  using ttt_pick [of Blank Blank Blank Blank Blank Blank Blank Blank Blank 8 False "0"]
    ply0_child0 ply0_child1 ply0_child2 ply0_child3 ply0_child4 ply0_child5 ply0_child6
    ply0_child7 ply0_child8
  by (simp add: ttt_pick_simps)

lemma one_ply1_child0:
  "minimax_in ttt (mkB Cross Blank Blank Blank Blank Blank Blank Blank Cross) 8 True (- 4) 9223372036854775807"
  by (rule ttt_ge) (simp add: ttt_eval)

lemma one_ply1_child1:
  "minimax_in ttt (mkB Blank Cross Blank Blank Blank Blank Blank Blank Cross) 8 True (- 4) 9223372036854775807"
  by (rule ttt_ge) (simp add: ttt_eval)

lemma one_ply1_child2:
  "minimax_in ttt (mkB Blank Blank Cross Blank Blank Blank Blank Blank Cross) 8 True (- 4) 9223372036854775807"
  by (rule ttt_ge) (simp add: ttt_eval)

lemma one_ply1_child3:
  "minimax_in ttt (mkB Blank Blank Blank Cross Blank Blank Blank Blank Cross) 8 True (- 4) 9223372036854775807"
  by (rule ttt_ge) (simp add: ttt_eval)

lemma one_ply1_child4:
  "minimax_in ttt (mkB Blank Blank Blank Blank Cross Blank Blank Blank Cross) 8 True (- 4) 9223372036854775807"
  by (rule ttt_ge) (simp add: ttt_eval)

lemma one_ply1_child5:
  "minimax_in ttt (mkB Blank Blank Blank Blank Blank Cross Blank Blank Cross) 8 True (- 4) 9223372036854775807"
  by (rule ttt_ge) (simp add: ttt_eval)

lemma one_ply1_child6:
  "minimax_in ttt (mkB Blank Blank Blank Blank Blank Blank Cross Blank Cross) 8 True (- 4) 9223372036854775807"
  by (rule ttt_ge) (simp add: ttt_eval)

lemma one_ply1_child7:
  "minimax_in ttt (mkB Blank Blank Blank Blank Blank Blank Blank Cross Cross) 8 True (- 4) (- 4)"
  by (rule ttt_eq) (simp add: ttt_eval)

lemma one_ply1_move:
  "Minimax ttt (mkB Blank Blank Blank Blank Blank Blank Blank Blank Cross) 9 False =
     Some (Some (mkB Blank Blank Blank Blank Blank Blank Blank Cross Cross), - 4)"
  using ttt_pick [of Blank Blank Blank Blank Blank Blank Blank Blank Cross 7 False "- 4"]
    one_ply1_child0 one_ply1_child1 one_ply1_child2 one_ply1_child3 one_ply1_child4
    one_ply1_child5 one_ply1_child6 one_ply1_child7
  by (simp add: ttt_pick_simps)

lemma one_ply2_child0:
  "minimax_in ttt (mkB Cross Blank Blank Blank Blank Blank Blank Cross Cross) 8 True (- 7) 9223372036854775807"
  by (rule ttt_ge) (simp add: ttt_eval)

lemma one_ply2_child1:
  "minimax_in ttt (mkB Blank Cross Blank Blank Blank Blank Blank Cross Cross) 8 True (- 7) 9223372036854775807"
  by (rule ttt_ge) (simp add: ttt_eval)

lemma one_ply2_child2:
  "minimax_in ttt (mkB Blank Blank Cross Blank Blank Blank Blank Cross Cross) 8 True (- 7) 9223372036854775807"
  by (rule ttt_ge) (simp add: ttt_eval)

lemma one_ply2_child3:
  "minimax_in ttt (mkB Blank Blank Blank Cross Blank Blank Blank Cross Cross) 8 True (- 7) 9223372036854775807"
  by (rule ttt_ge) (simp add: ttt_eval)

lemma one_ply2_child4:
  "minimax_in ttt (mkB Blank Blank Blank Blank Cross Blank Blank Cross Cross) 8 True (- 7) 9223372036854775807"
  by (rule ttt_ge) (simp add: ttt_eval)

lemma one_ply2_child5:
  "minimax_in ttt (mkB Blank Blank Blank Blank Blank Cross Blank Cross Cross) 8 True (- 7) 9223372036854775807"
  by (rule ttt_ge) (simp add: ttt_eval)

lemma one_ply2_child6:
  "minimax_in ttt (mkB Blank Blank Blank Blank Blank Blank Cross Cross Cross) 8 True (- 7) (- 7)"
  by (rule ttt_eq) (simp add: ttt_eval)

lemma one_ply2_move:
  "Minimax ttt (mkB Blank Blank Blank Blank Blank Blank Blank Cross Cross) 9 False =
     Some (Some (mkB Blank Blank Blank Blank Blank Blank Cross Cross Cross), - 7)"
  using ttt_pick [of Blank Blank Blank Blank Blank Blank Blank Cross Cross 6 False "- 7"]
    one_ply2_child0 one_ply2_child1 one_ply2_child2 one_ply2_child3 one_ply2_child4
    one_ply2_child5 one_ply2_child6
  by (simp add: ttt_pick_simps)

lemma two_ply1_child0:
  "minimax_in ttt (mkB Circle Blank Blank Blank Blank Blank Blank Blank Cross) 8 False (- 9223372036854775808) 0"
  by (rule ttt_le) (simp add: ttt_eval)

lemma two_ply1_child1:
  "minimax_in ttt (mkB Blank Circle Blank Blank Blank Blank Blank Blank Cross) 8 False (- 9223372036854775808) 0"
  by (rule ttt_le) (simp add: ttt_eval)

lemma two_ply1_child2:
  "minimax_in ttt (mkB Blank Blank Circle Blank Blank Blank Blank Blank Cross) 8 False (- 9223372036854775808) 0"
  by (rule ttt_le) (simp add: ttt_eval)

lemma two_ply1_child3:
  "minimax_in ttt (mkB Blank Blank Blank Circle Blank Blank Blank Blank Cross) 8 False (- 9223372036854775808) 0"
  by (rule ttt_le) (simp add: ttt_eval)

lemma two_ply1_child4:
  "minimax_in ttt (mkB Blank Blank Blank Blank Circle Blank Blank Blank Cross) 8 False 0 0"
  by (rule ttt_eq) (simp add: ttt_eval)

lemma two_ply1_child5:
  "minimax_in ttt (mkB Blank Blank Blank Blank Blank Circle Blank Blank Cross) 8 False (- 9223372036854775808) (- 1)"
  by (rule ttt_le) (simp add: ttt_eval)

lemma two_ply1_child6:
  "minimax_in ttt (mkB Blank Blank Blank Blank Blank Blank Circle Blank Cross) 8 False (- 9223372036854775808) (- 1)"
  by (rule ttt_le) (simp add: ttt_eval)

lemma two_ply1_child7:
  "minimax_in ttt (mkB Blank Blank Blank Blank Blank Blank Blank Circle Cross) 8 False (- 9223372036854775808) (- 1)"
  by (rule ttt_le) (simp add: ttt_eval)

lemma two_ply1_move:
  "Minimax ttt (mkB Blank Blank Blank Blank Blank Blank Blank Blank Cross) 9 True =
     Some (Some (mkB Blank Blank Blank Blank Circle Blank Blank Blank Cross), 0)"
  using ttt_pick [of Blank Blank Blank Blank Blank Blank Blank Blank Cross 4 True "0"]
    two_ply1_child0 two_ply1_child1 two_ply1_child2 two_ply1_child3 two_ply1_child4
    two_ply1_child5 two_ply1_child6 two_ply1_child7
  by (simp add: ttt_pick_simps)

lemma two_ply2_child0:
  "minimax_in ttt (mkB Cross Blank Blank Blank Circle Blank Blank Blank Cross) 8 True 0 9223372036854775807"
  by (rule ttt_ge) (simp add: ttt_eval)

lemma two_ply2_child1:
  "minimax_in ttt (mkB Blank Cross Blank Blank Circle Blank Blank Blank Cross) 8 True 0 9223372036854775807"
  by (rule ttt_ge) (simp add: ttt_eval)

lemma two_ply2_child2:
  "minimax_in ttt (mkB Blank Blank Cross Blank Circle Blank Blank Blank Cross) 8 True 0 9223372036854775807"
  by (rule ttt_ge) (simp add: ttt_eval)

lemma two_ply2_child3:
  "minimax_in ttt (mkB Blank Blank Blank Cross Circle Blank Blank Blank Cross) 8 True 0 9223372036854775807"
  by (rule ttt_ge) (simp add: ttt_eval)

lemma two_ply2_child4:
  "minimax_in ttt (mkB Blank Blank Blank Blank Circle Cross Blank Blank Cross) 8 True 0 9223372036854775807"
  by (rule ttt_ge) (simp add: ttt_eval)

lemma two_ply2_child5:
  "minimax_in ttt (mkB Blank Blank Blank Blank Circle Blank Cross Blank Cross) 8 True 0 9223372036854775807"
  by (rule ttt_ge) (simp add: ttt_eval)

lemma two_ply2_child6:
  "minimax_in ttt (mkB Blank Blank Blank Blank Circle Blank Blank Cross Cross) 8 True 0 0"
  by (rule ttt_eq) (simp add: ttt_eval)

lemma two_ply2_move:
  "Minimax ttt (mkB Blank Blank Blank Blank Circle Blank Blank Blank Cross) 9 False =
     Some (Some (mkB Blank Blank Blank Blank Circle Blank Blank Cross Cross), 0)"
  using ttt_pick [of Blank Blank Blank Blank Circle Blank Blank Blank Cross 6 False "0"]
    two_ply2_child0 two_ply2_child1 two_ply2_child2 two_ply2_child3 two_ply2_child4
    two_ply2_child5 two_ply2_child6
  by (simp add: ttt_pick_simps)

lemma two_ply3_child0:
  "minimax_in ttt (mkB Circle Blank Blank Blank Circle Blank Blank Cross Cross) 8 False (- 9223372036854775808) 0"
  by (rule ttt_le) (simp add: ttt_eval)

lemma two_ply3_child1:
  "minimax_in ttt (mkB Blank Circle Blank Blank Circle Blank Blank Cross Cross) 8 False (- 9223372036854775808) 0"
  by (rule ttt_le) (simp add: ttt_eval)

lemma two_ply3_child2:
  "minimax_in ttt (mkB Blank Blank Circle Blank Circle Blank Blank Cross Cross) 8 False (- 9223372036854775808) 0"
  by (rule ttt_le) (simp add: ttt_eval)

lemma two_ply3_child3:
  "minimax_in ttt (mkB Blank Blank Blank Circle Circle Blank Blank Cross Cross) 8 False (- 9223372036854775808) 0"
  by (rule ttt_le) (simp add: ttt_eval)

lemma two_ply3_child4:
  "minimax_in ttt (mkB Blank Blank Blank Blank Circle Circle Blank Cross Cross) 8 False (- 9223372036854775808) 0"
  by (rule ttt_le) (simp add: ttt_eval)

lemma two_ply3_child5:
  "minimax_in ttt (mkB Blank Blank Blank Blank Circle Blank Circle Cross Cross) 8 False 0 0"
  by (rule ttt_eq) (simp add: ttt_eval)

lemma two_ply3_move:
  "Minimax ttt (mkB Blank Blank Blank Blank Circle Blank Blank Cross Cross) 9 True =
     Some (Some (mkB Blank Blank Blank Blank Circle Blank Circle Cross Cross), 0)"
  using ttt_pick [of Blank Blank Blank Blank Circle Blank Blank Cross Cross 5 True "0"]
    two_ply3_child0 two_ply3_child1 two_ply3_child2 two_ply3_child3 two_ply3_child4
    two_ply3_child5
  by (simp add: ttt_pick_simps)

lemma two_ply4_child0:
  "minimax_in ttt (mkB Cross Blank Blank Blank Circle Blank Circle Cross Cross) 8 True 0 9223372036854775807"
  by (rule ttt_ge) (simp add: ttt_eval)

lemma two_ply4_child1:
  "minimax_in ttt (mkB Blank Cross Blank Blank Circle Blank Circle Cross Cross) 8 True 0 9223372036854775807"
  by (rule ttt_ge) (simp add: ttt_eval)

lemma two_ply4_child2:
  "minimax_in ttt (mkB Blank Blank Cross Blank Circle Blank Circle Cross Cross) 8 True 0 0"
  by (rule ttt_eq) (simp add: ttt_eval)

lemma two_ply4_child3:
  "minimax_in ttt (mkB Blank Blank Blank Cross Circle Blank Circle Cross Cross) 8 True 1 9223372036854775807"
  by (rule ttt_ge) (simp add: ttt_eval)

lemma two_ply4_child4:
  "minimax_in ttt (mkB Blank Blank Blank Blank Circle Cross Circle Cross Cross) 8 True 1 9223372036854775807"
  by (rule ttt_ge) (simp add: ttt_eval)

lemma two_ply4_move:
  "Minimax ttt (mkB Blank Blank Blank Blank Circle Blank Circle Cross Cross) 9 False =
     Some (Some (mkB Blank Blank Cross Blank Circle Blank Circle Cross Cross), 0)"
  using ttt_pick [of Blank Blank Blank Blank Circle Blank Circle Cross Cross 2 False "0"]
    two_ply4_child0 two_ply4_child1 two_ply4_child2 two_ply4_child3 two_ply4_child4
  by (simp add: ttt_pick_simps)

lemma two_ply5_child0:
  "minimax_in ttt (mkB Circle Blank Cross Blank Circle Blank Circle Cross Cross) 8 False (- 9223372036854775808) 0"
  by (rule ttt_le) (simp add: ttt_eval)

lemma two_ply5_child1:
  "minimax_in ttt (mkB Blank Circle Cross Blank Circle Blank Circle Cross Cross) 8 False (- 9223372036854775808) 0"
  by (rule ttt_le) (simp add: ttt_eval)

lemma two_ply5_child2:
  "minimax_in ttt (mkB Blank Blank Cross Circle Circle Blank Circle Cross Cross) 8 False (- 9223372036854775808) 0"
  by (rule ttt_le) (simp add: ttt_eval)

lemma two_ply5_child3:
  "minimax_in ttt (mkB Blank Blank Cross Blank Circle Circle Circle Cross Cross) 8 False 0 0"
  by (rule ttt_eq) (simp add: ttt_eval)

lemma two_ply5_move:
  "Minimax ttt (mkB Blank Blank Cross Blank Circle Blank Circle Cross Cross) 9 True =
     Some (Some (mkB Blank Blank Cross Blank Circle Circle Circle Cross Cross), 0)"
  using ttt_pick [of Blank Blank Cross Blank Circle Blank Circle Cross Cross 3 True "0"]
    two_ply5_child0 two_ply5_child1 two_ply5_child2 two_ply5_child3
  by (simp add: ttt_pick_simps)

lemma two_ply6_child0:
  "minimax_in ttt (mkB Cross Blank Cross Blank Circle Circle Circle Cross Cross) 8 True 0 9223372036854775807"
  by (rule ttt_ge) (simp add: ttt_eval)

lemma two_ply6_child1:
  "minimax_in ttt (mkB Blank Cross Cross Blank Circle Circle Circle Cross Cross) 8 True 0 9223372036854775807"
  by (rule ttt_ge) (simp add: ttt_eval)

lemma two_ply6_child2:
  "minimax_in ttt (mkB Blank Blank Cross Cross Circle Circle Circle Cross Cross) 8 True 0 0"
  by (rule ttt_eq) (simp add: ttt_eval)

lemma two_ply6_move:
  "Minimax ttt (mkB Blank Blank Cross Blank Circle Circle Circle Cross Cross) 9 False =
     Some (Some (mkB Blank Blank Cross Cross Circle Circle Circle Cross Cross), 0)"
  using ttt_pick [of Blank Blank Cross Blank Circle Circle Circle Cross Cross 2 False "0"]
    two_ply6_child0 two_ply6_child1 two_ply6_child2
  by (simp add: ttt_pick_simps)

lemma two_ply7_child0:
  "minimax_in ttt (mkB Circle Blank Cross Cross Circle Circle Circle Cross Cross) 8 False (- 9223372036854775808) 0"
  by (rule ttt_le) (simp add: ttt_eval)

lemma two_ply7_child1:
  "minimax_in ttt (mkB Blank Circle Cross Cross Circle Circle Circle Cross Cross) 8 False 0 0"
  by (rule ttt_eq) (simp add: ttt_eval)

lemma two_ply7_move:
  "Minimax ttt (mkB Blank Blank Cross Cross Circle Circle Circle Cross Cross) 9 True =
     Some (Some (mkB Blank Circle Cross Cross Circle Circle Circle Cross Cross), 0)"
  using ttt_pick [of Blank Blank Cross Cross Circle Circle Circle Cross Cross 1 True "0"]
    two_ply7_child0 two_ply7_child1
  by (simp add: ttt_pick_simps)

lemma two_ply8_child0:
  "minimax_in ttt (mkB Cross Circle Cross Cross Circle Circle Circle Cross Cross) 8 True 0 0"
  by (rule ttt_eq) (simp add: ttt_eval)

lemma two_ply8_move:
  "Minimax ttt (mkB Blank Circle Cross Cross Circle Circle Circle Cross Cross) 9 False =
     Some (Some (mkB Cross Circle Cross Cross Circle Circle Circle Cross Cross), 0)"
  using ttt_pick [of Blank Circle Cross Cross Circle Circle Circle Cross Cross 0 False "0"]
    two_ply8_child0
  by (simp add: ttt_pick_simps)

section \<open>Tic-tac-toe: the two test games\<close>

lemma nine: "(9 :: nat) = Suc (Suc (Suc (Suc (Suc (Suc (Suc (Suc (Suc 0))))))))"
  by simp

lemma tttEmpty_mkB: "tttEmpty = mkB Blank Blank Blank Blank Blank Blank Blank Blank Blank"
  by (simp add: tttEmpty_def mkB_def empty_sq_def)

lemma won_mkB:
  "\<lparr> board = [[0, 0, 0], [0, 0, 0], [- 1, - 1, - 1]] \<rparr>
     = mkB Blank Blank Blank Blank Blank Blank Cross Cross Cross"
  by (simp add: mkB_def empty_sq_def cross_def)

lemma drawn_mkB:
  "\<lparr> board = [[- 1, 1, - 1], [- 1, 1, 1], [1, - 1, - 1]] \<rparr>
     = mkB Cross Circle Cross Cross Circle Circle Circle Cross Cross"
  by (simp add: mkB_def circle_def cross_def)

lemma won_move:
  "Minimax ttt (mkB Blank Blank Blank Blank Blank Blank Cross Cross Cross) 9 m =
     Some (Some (mkB Blank Blank Blank Blank Blank Blank Cross Cross Cross),
           tttScore (mkB Blank Blank Blank Blank Blank Blank Cross Cross Cross))"
  using Minimax_base [of 9 ttt "mkB Blank Blank Blank Blank Blank Blank Cross Cross Cross" m]
  by (simp add: tttIsTerminal_mkB term9_def full_def)

text \<open>
  C8, as stated, fails: when the sides alternate, starting with the minimizing
  side, nine moves of \<^verbatim>\<open>Minimax\<close> at depth 9 from the empty board end on a full
  board without any complete row, column or diagonal, and its score is 0.
\<close>

theorem alternating_play_is_a_draw:
  "play True 9 tttEmpty False = Some \<lparr> board = [[- 1, 1, - 1], [- 1, 1, 1], [1, - 1, - 1]] \<rparr>
   \<and> anyFullRow \<lparr> board = [[- 1, 1, - 1], [- 1, 1, 1], [1, - 1, - 1]] \<rparr> = (False, empty_sq)
   \<and> tttScore \<lparr> board = [[- 1, 1, - 1], [- 1, 1, 1], [1, - 1, - 1]] \<rparr> = 0"
proof -
  have "play True 9 tttEmpty False
      = Some (mkB Cross Circle Cross Cross Circle Circle Circle Cross Cross)"
    unfolding nine tttEmpty_mkB
    by (simp add: ply0_move two_ply1_move two_ply2_move two_ply3_move two_ply4_move
          two_ply5_move two_ply6_move two_ply7_move two_ply8_move)
  moreover have "anyFullRow (mkB Cross Circle Cross Cross Circle Circle Circle Cross Cross)
      = (False, empty_sq)"
    by (simp add: anyFullRow_mkB full_def)
  moreover have "tttScore (mkB Cross Circle Cross Cross Circle Circle Circle Cross Cross) = 0"
    by (simp add: tttScore_def anyFullRow_mkB full_def empty_sq_def)
  ultimately show ?thesis
    by (simp only: drawn_mkB simp_thms)
qed

text \<open>
  C8, amended. Starting from the empty board and replacing the board nine
  times by the node \<^verbatim>\<open>Minimax\<close> returns at depth 9 with the minimizing side to
  move every time (as \<^verbatim>\<open>TestTTTSingleMinimax\<close> does), the final board is
  terminal, cross has a complete row, six squares are empty, and the score is
  -(6 + 1).
\<close>

theorem single_side_play_cross_wins:
  "play False 9 tttEmpty False = Some \<lparr> board = [[0, 0, 0], [0, 0, 0], [- 1, - 1, - 1]] \<rparr>
   \<and> tttIsTerminal \<lparr> board = [[0, 0, 0], [0, 0, 0], [- 1, - 1, - 1]] \<rparr>
   \<and> anyFullRow \<lparr> board = [[0, 0, 0], [0, 0, 0], [- 1, - 1, - 1]] \<rparr> = (True, cross)
   \<and> numberEmptySquares \<lparr> board = [[0, 0, 0], [0, 0, 0], [- 1, - 1, - 1]] \<rparr> = 6
   \<and> tttScore \<lparr> board = [[0, 0, 0], [0, 0, 0], [- 1, - 1, - 1]] \<rparr> = - (6 + 1)"
proof -
  have "play False 9 tttEmpty False
      = Some (mkB Blank Blank Blank Blank Blank Blank Cross Cross Cross)"
    unfolding nine tttEmpty_mkB
    by (simp add: ply0_move one_ply1_move one_ply2_move won_move)
  moreover have "tttIsTerminal (mkB Blank Blank Blank Blank Blank Blank Cross Cross Cross)"
    by (simp add: tttIsTerminal_mkB term9_def full_def)
  moreover have "anyFullRow (mkB Blank Blank Blank Blank Blank Blank Cross Cross Cross)
      = (True, cross)"
    by (simp add: anyFullRow_mkB full_def)
  moreover have "numberEmptySquares (mkB Blank Blank Blank Blank Blank Blank Cross Cross Cross)
      = 6"
    by (simp add: numberEmptySquares_mkB blanks9_def bl_def)
  moreover have "tttScore (mkB Blank Blank Blank Blank Blank Blank Cross Cross Cross)
      = - (6 + 1)"
    by (simp add: tttScore_def anyFullRow_mkB full_def numberEmptySquares_mkB blanks9_def
          bl_def cross_def)
  ultimately show ?thesis
    by (simp only: won_mkB simp_thms)
qed

section \<open>Termination\<close>

text \<open>
  C10. For every depth that is not negative, both sides to move, and every
  position from which the generator of every position the search can come to
  returns \<^verbatim>\<open>nil\<close> after finitely many invocations, \<^verbatim>\<open>Minimax\<close> and
  \<^verbatim>\<open>MinimaxAlphaBetaPrunning\<close> return.
\<close>

theorem searches_return:
  assumes "0 \<le>s depth" and "generators_end G node maximizing"
  shows "(\<exists>r. Minimax G node depth maximizing = Some r)
       \<and> (\<exists>r. MinimaxAlphaBetaPrunning G node depth maximizing = Some r)"
  using search_agree [OF assms] by auto

theorem searches_return_witness:
  "(\<exists>r. Minimax ttt tttEmpty 9 False = Some r)
   \<and> (\<exists>r. MinimaxAlphaBetaPrunning ttt tttEmpty 9 False = Some r)"
  using searches_return [of 9 ttt tttEmpty False] generators_end_ttt
  by (simp add: word_sle_eq)

section \<open>Depth below zero\<close>

lemma toy_below_zero: "Minimax toy 0 (- 1) True = Some (Some 1, 5)"
  by (simp add: Minimax_expand Minimax_loop_child [where x = "Some 1" and newScore = 5]
        Minimax_base Minimax_loop_nil MinimaxInitScore_def MinInt_def word_sle_eq)

lemma toy_concurrent_below_zero:
  "MinimaxConcurrent limits64 toy 0 (- 1) True 1 [] = Some (Some 1, 5)"
  by (simp add: MinimaxConcurrent_def makeChan_def limits64_def
        minimaxConcurrentFeeder_def feeder_child feeder_nil
        minimaxConcurrentWorker_def MinimaxAlphaBetaPrunning_def alphabeta_base
        minimaxConcurrentConsumer_def consumer_best_def consume_def
        MinimaxInitScore_def MinInt_def word_sless_alt)

lemma ttt_below_zero:
  "Minimax ttt (mkB Cross Circle Cross Cross Circle Circle Circle Cross Blank) (- 1) False
     = Some (Some (mkB Cross Circle Cross Cross Circle Circle Circle Cross Cross), 0)"
proof -
  let ?s = "mkB Cross Circle Cross Cross Circle Circle Circle Cross Blank"
  let ?c = "mkB Cross Circle Cross Cross Circle Circle Circle Cross Cross"
  have nt: "\<not> IsTerminal ttt ?s"
    by (simp add: tttIsTerminal_mkB ttt_pick_simps)
  have cs: "yields ttt False (SearchNodeGenerator ttt ?s) [?c]"
    using yields_tttKids [rule_format, of False ?s]
    by (simp add: tttKids_mkB ttt_pick_simps)
  have "Minimax ttt ?c (- 1 - 1) True = Some (Some ?c, 0)"
    using Minimax_base [of "- 1 - 1" ttt ?c True]
      tttScore_mkB [of Cross Circle Cross Cross Circle Circle Circle Cross Cross]
    by (simp add: tttIsTerminal_mkB ttt_pick_simps score9_def sint_zero_iff)
  then have "\<forall>c\<in>set [?c]. \<exists>x. Minimax ttt c (- 1 - 1) (\<not> False) = Some (x, 0)"
    by simp
  from Minimax_loop_yields [OF cs this, of None "MinimaxInitScore False"]
  show ?thesis
    using nt
    by (simp add: Minimax_expand accept_def MinimaxInitScore_def word_sle_eq sint_MaxInt)
qed

text \<open>
  The board \<^verbatim>\<open>X X _ / O O X / O X O\<close> with cross to move: not terminal, score 0,
  and the one move left completes the top row, a board of score -1.
\<close>

lemma ttt_last_move:
  "\<not> IsTerminal ttt (mkB Cross Cross Blank Circle Circle Cross Circle Cross Circle)"
  "Score ttt (mkB Cross Cross Blank Circle Circle Cross Circle Cross Circle) = 0"
  "yields ttt False
     (SearchNodeGenerator ttt (mkB Cross Cross Blank Circle Circle Cross Circle Cross Circle))
     [mkB Cross Cross Cross Circle Circle Cross Circle Cross Circle]"
  "IsTerminal ttt (mkB Cross Cross Cross Circle Circle Cross Circle Cross Circle)"
  "Score ttt (mkB Cross Cross Cross Circle Circle Cross Circle Cross Circle) = - 1"
proof -
  let ?s = "mkB Cross Cross Blank Circle Circle Cross Circle Cross Circle"
  let ?c = "mkB Cross Cross Cross Circle Circle Cross Circle Cross Circle"
  show "\<not> IsTerminal ttt ?s" and "IsTerminal ttt ?c"
    by (simp_all add: tttIsTerminal_mkB ttt_pick_simps)
  show "yields ttt False (SearchNodeGenerator ttt ?s) [?c]"
    using yields_tttKids [rule_format, of False ?s]
    by (simp add: tttKids_mkB ttt_pick_simps)
  have "sint (Score ttt ?s) = sint (0 :: go_int)"
    by (simp add: tttScore_mkB score9_def ttt_pick_simps)
  then show "Score ttt ?s = 0"
    by (rule signed_word_eqI)
  have "sint (Score ttt ?c) = sint (- 1 :: go_int)"
    by (simp add: tttScore_mkB score9_def ttt_pick_simps)
  then show "Score ttt ?c = - 1"
    by (rule signed_word_eqI)
qed

lemma ttt_last_move_Minimax:
  "Minimax ttt (mkB Cross Cross Blank Circle Circle Cross Circle Cross Circle) (- 1) False
     = Some (Some (mkB Cross Cross Cross Circle Circle Cross Circle Cross Circle), - 1)"
proof -
  let ?c = "mkB Cross Cross Cross Circle Circle Cross Circle Cross Circle"
  have "Minimax ttt ?c (- 1 - 1) True = Some (Some ?c, - 1)"
    using Minimax_base [of "- 1 - 1" ttt ?c True] ttt_last_move(4,5) by simp
  then have "\<forall>c\<in>set [?c]. \<exists>x. Minimax ttt c (- 1 - 1) (\<not> False) = Some (x, - 1)"
    by simp
  from Minimax_loop_yields [OF ttt_last_move(3) this, of None "MinimaxInitScore False"]
  show ?thesis
    using ttt_last_move(1)
    by (simp add: Minimax_expand accept_def MinimaxInitScore_def word_sle_eq sint_MaxInt)
qed

lemma ttt_last_move_pruned:
  "MinimaxAlphaBetaPrunning ttt (mkB Cross Cross Blank Circle Circle Cross Circle Cross Circle)
       (- 1) False
     = Some (Some (mkB Cross Cross Blank Circle Circle Cross Circle Cross Circle), 0)"
  using alphabeta_negative_depth
    [of "- 1" ttt "mkB Cross Cross Blank Circle Circle Cross Circle Cross Circle" False]
    ttt_last_move(2)
  by (simp add: word_sless_alt)

lemma ttt_last_move_concurrent:
  "MinimaxConcurrent limits64 ttt
       (mkB Cross Cross Blank Circle Circle Cross Circle Cross Circle) (- 1) False 2 []
     = Some (Some (mkB Cross Cross Cross Circle Circle Cross Circle Cross Circle), - 1)"
proof -
  let ?c = "mkB Cross Cross Cross Circle Circle Cross Circle Cross Circle"
  have "MinimaxAlphaBetaPrunning ttt ?c (- 1 - 1) True = Some (Some ?c, - 1)"
    using alphabeta_negative_depth [of "- 1 - 1" ttt ?c True] ttt_last_move(5)
    by (simp add: word_sless_alt)
  then have "\<forall>c\<in>set [?c]. \<exists>y. MinimaxAlphaBetaPrunning ttt c (- 1 - 1) (\<not> False)
      = Some (y, - 1)"
    by simp
  from concurrent_expand [OF _ ttt_last_move(1) pool_two(2) ttt_last_move(3) this, of "[]"]
  show ?thesis
    by (simp add: minimaxConcurrentConsumer_def consumer_best_def consume_def
          MinimaxInitScore_def word_sless_alt sint_MaxInt)
qed

text \<open>
  C4. With the negative depth -1 at position 0 of the small game, which is not
  terminal and scores 0, \<^verbatim>\<open>Minimax\<close> and \<^verbatim>\<open>MinimaxConcurrent\<close> do not return the
  position itself with its score: their base case tests \<^verbatim>\<open>depth == 0\<close>, so they
  expand the child 1 and return it with its score 5. Only
  \<^verbatim>\<open>MinimaxAlphaBetaPrunning\<close>, whose base case tests \<^verbatim>\<open>depth <= 0\<close>, returns
  position 0 with score 0. The same happens in tic-tac-toe: on the board
  \<^verbatim>\<open>X O X / X O O / O X _\<close> with depth -1 and cross to move, \<^verbatim>\<open>Minimax\<close> returns the
  successor with a cross on the last square, not the board it was given.
\<close>

theorem negative_depth_is_expanded:
  "Minimax toy 0 (- 1) True = Some (Some 1, 5)
   \<and> MinimaxConcurrent limits64 toy 0 (- 1) True 1 [] = Some (Some 1, 5)
   \<and> MinimaxAlphaBetaPrunning toy 0 (- 1) True = Some (Some 0, 0)
   \<and> \<not> IsTerminal toy 0 \<and> Score toy 0 = 0
   \<and> Minimax ttt (mkB Cross Circle Cross Cross Circle Circle Circle Cross Blank) (- 1) False
       = Some (Some (mkB Cross Circle Cross Cross Circle Circle Circle Cross Cross), 0)"
proof -
  have "MinimaxAlphaBetaPrunning toy 0 (- 1) True = Some (Some 0, 0)"
    by (simp add: MinimaxAlphaBetaPrunning_def alphabeta_base word_sle_eq)
  moreover have "\<not> IsTerminal toy 0 \<and> Score toy 0 = 0"
    by simp
  ultimately show ?thesis
    using toy_below_zero toy_concurrent_below_zero ttt_below_zero
    by (simp only: simp_thms)
qed

text \<open>
  C1. At depth -1 the two searches do not return the same score. On the
  tic-tac-toe board \<^verbatim>\<open>X X _ / O O X / O X O\<close> with cross to move \<^verbatim>\<open>Minimax\<close>, whose
  base case tests \<^verbatim>\<open>depth == 0\<close>, plays the last move and returns score -1, while
  \<^verbatim>\<open>MinimaxAlphaBetaPrunning\<close>, whose base case tests \<^verbatim>\<open>depth <= 0\<close>, returns the
  board itself with score 0. At position 0 of the small game the scores are 5
  and 0.
\<close>

theorem scores_differ_at_negative_depth:
  "Minimax ttt (mkB Cross Cross Blank Circle Circle Cross Circle Cross Circle) (- 1) False
     = Some (Some (mkB Cross Cross Cross Circle Circle Cross Circle Cross Circle), - 1)
   \<and> MinimaxAlphaBetaPrunning ttt
         (mkB Cross Cross Blank Circle Circle Cross Circle Cross Circle) (- 1) False
     = Some (Some (mkB Cross Cross Blank Circle Circle Cross Circle Cross Circle), 0)
   \<and> (- 1 :: go_int) \<noteq> 0
   \<and> Minimax toy 0 (- 1) True = Some (Some 1, 5)
   \<and> MinimaxAlphaBetaPrunning toy 0 (- 1) True = Some (Some 0, 0)
   \<and> (5 :: go_int) \<noteq> 0"
proof -
  have "MinimaxAlphaBetaPrunning toy 0 (- 1) True = Some (Some 0, 0)"
    by (simp add: alphabeta_negative_depth word_sless_alt)
  then show ?thesis
    using ttt_last_move_Minimax ttt_last_move_pruned toy_below_zero
    by (simp only: simp_thms) simp
qed

text \<open>
  C2. At depth -1 \<^verbatim>\<open>MinimaxConcurrent\<close> and \<^verbatim>\<open>MinimaxAlphaBetaPrunning\<close> do not
  return the same score. On the tic-tac-toe board \<^verbatim>\<open>X X _ / O O X / O X O\<close> with
  cross to move and two workers \<^verbatim>\<open>MinimaxConcurrent\<close>, whose base case tests
  \<^verbatim>\<open>depth == 0\<close>, hands the last move to a worker and returns score -1, while
  \<^verbatim>\<open>MinimaxAlphaBetaPrunning\<close> returns the board itself with score 0. At
  position 0 of the small game, with one worker, the scores are 5 and 0.
\<close>

theorem concurrent_differs_at_negative_depth:
  "MinimaxConcurrent limits64 ttt
       (mkB Cross Cross Blank Circle Circle Cross Circle Cross Circle) (- 1) False 2 []
     = Some (Some (mkB Cross Cross Cross Circle Circle Cross Circle Cross Circle), - 1)
   \<and> MinimaxAlphaBetaPrunning ttt
         (mkB Cross Cross Blank Circle Circle Cross Circle Cross Circle) (- 1) False
     = Some (Some (mkB Cross Cross Blank Circle Circle Cross Circle Cross Circle), 0)
   \<and> (- 1 :: go_int) \<noteq> 0
   \<and> MinimaxConcurrent limits64 toy 0 (- 1) True 1 [] = Some (Some 1, 5)
   \<and> MinimaxAlphaBetaPrunning toy 0 (- 1) True = Some (Some 0, 0)
   \<and> (5 :: go_int) \<noteq> 0"
proof -
  have "MinimaxAlphaBetaPrunning toy 0 (- 1) True = Some (Some 0, 0)"
    by (simp add: alphabeta_negative_depth word_sless_alt)
  then show ?thesis
    using ttt_last_move_concurrent ttt_last_move_pruned toy_concurrent_below_zero
    by (simp only: simp_thms) simp
qed

section \<open>A position without children\<close>

text \<open>
  C7, as stated for all three entry points whatever the worker count, fails
  for \<^verbatim>\<open>MinimaxConcurrent\<close>: at position 2 of the small game, which is not
  terminal and has no child, with depth 1, the call returns nothing when
  \<^verbatim>\<open>make\<close> panics. That happens with -1 workers (the capacity -5 is negative),
  with \<open>2 ^ 61\<close> workers (\<^verbatim>\<open>workers*5\<close> wraps around to a negative number) and with
  \<open>2 ^ 60\<close> workers (the capacity is beyond what the runtime allows).
\<close>

theorem concurrent_panics_without_children:
  "\<not> IsTerminal toy 2
   \<and> generator toy (SearchNodeGenerator toy 2) True = None
   \<and> MinimaxConcurrent limits64 toy 2 1 True (- 1) [] = None
   \<and> MinimaxConcurrent limits64 toy 2 1 True (2 ^ 61) [] = None
   \<and> MinimaxConcurrent limits64 toy 2 1 True (2 ^ 60) [] = None"
  by (simp add: MinimaxConcurrent_def makeChan_def limits64_def word_sless_alt)

text \<open>
  C7, amended. At a position that is not terminal and whose generator returns
  \<^verbatim>\<open>nil\<close> at its first invocation, with a depth of at least 1, \<^verbatim>\<open>Minimax\<close> and
  \<^verbatim>\<open>MinimaxAlphaBetaPrunning\<close> return a \<^verbatim>\<open>nil\<close> node and the initial score of the
  side to move, \<^verbatim>\<open>math.MinInt\<close> when maximizing and \<^verbatim>\<open>math.MaxInt\<close> when
  minimizing; so does \<^verbatim>\<open>MinimaxConcurrent\<close>, under every schedule, at every worker
  count for which \<^verbatim>\<open>make\<close> accepts \<^verbatim>\<open>workers*5\<close> as the capacity of both channels
  (a count that starts no worker included).
\<close>

theorem empty_generator_sentinel:
  assumes "\<not> IsTerminal G node"
    and "generator G (SearchNodeGenerator G node) maximizing = None"
    and "1 \<le>s depth"
  shows "Minimax G node depth maximizing
           = Some (None, if maximizing then MinInt else MaxInt)
       \<and> MinimaxAlphaBetaPrunning G node depth maximizing
           = Some (None, if maximizing then MinInt else MaxInt)
       \<and> (makeChan (jobsLimit L) (workers * 5) \<noteq> None
            \<and> makeChan (resultsLimit L) (workers * 5) \<noteq> None
          \<longrightarrow> MinimaxConcurrent L G node depth maximizing workers sched
                = Some (None, if maximizing then MinInt else MaxInt))"
proof -
  from assms(3) have d: "depth \<noteq> 0" "\<not> depth \<le>s 0"
    using depth_pos by blast+
  have "Minimax G node depth maximizing = Some (None, MinimaxInitScore maximizing)"
    using assms(1,2) d by (simp add: Minimax_expand Minimax_loop_nil)
  moreover have "MinimaxAlphaBetaPrunning G node depth maximizing
      = Some (None, MinimaxInitScore maximizing)"
    using assms(1,2) d
    by (simp add: MinimaxAlphaBetaPrunning_def alphabeta_expand alphabeta_loop_nil)
  moreover have "MinimaxConcurrent L G node depth maximizing workers sched
      = Some (None, MinimaxInitScore maximizing)"
    if "makeChan (jobsLimit L) (workers * 5) \<noteq> None"
      and "makeChan (resultsLimit L) (workers * 5) \<noteq> None"
    using assms(1,2) d that [THEN makeChan_Some]
    by (simp add: MinimaxConcurrent_def minimaxConcurrentFeeder_def feeder_nil
          minimaxConcurrentConsumer_def consumer_best_def)
  ultimately show ?thesis by (simp add: MinimaxInitScore_def)
qed

theorem empty_generator_sentinel_witness:
  "Minimax toy 2 1 True = Some (None, MinInt)
   \<and> MinimaxAlphaBetaPrunning toy 2 1 True = Some (None, MinInt)
   \<and> MinimaxConcurrent limits64 toy 2 1 True 2 [] = Some (None, MinInt)
   \<and> MinimaxConcurrent limits64 toy 2 1 True 0 [] = Some (None, MinInt)"
  using empty_generator_sentinel [of toy 2 True 1 limits64 2 "[]"]
    empty_generator_sentinel [of toy 2 True 1 limits64 0 "[]"]
  by (simp add: makeChan_def limits64_def word_sless_alt)

end
